theory Spec2Isabelle
  imports Main
begin

section \<open>Data model of buildTree.mjs\<close>

text \<open>
  An input record of the flat array: the type \<open>references\<close> of the source's header
  comment. \<open>parentId\<close> and \<open>previousSiblingId\<close> are a string or \<open>null\<close> (\<open>None\<close>).
\<close>

record node =
  nodeId :: string
  name :: string
  parentId :: "string option"
  previousSiblingId :: "string option"

text \<open>
  The object stored in \<open>references\<close>: \<open>{...node, children: []}\<close>. The \<open>children\<close> array
  holds references to node objects. Every node object lives in \<open>references\<close> under its own
  \<open>nodeId\<close> and is never replaced after phase 1 (only its \<open>children\<close> field is assigned),
  so an object reference is modelled by the key it is stored under and \<open>references\<close> is the
  store: a change of a node's \<open>children\<close> is seen through every array that holds the node.
\<close>

record nodeRecord = node +
  children :: "string list"

record meta =
  isLastNode :: bool
  childrenAreSorted :: bool

text \<open>
  The local variables of \<open>buildTree\<close>. \<open>references\<close> and \<open>metaData\<close> are the own
  properties of the two objects; \<open>keys\<close> lists the own property names of \<open>references\<close> in
  the order of their creation, which \<open>Object.keys\<close> needs. \<open>tree\<close> holds references to node
  objects, as \<open>children\<close> does.

  Scope: property lookup is modelled for own properties. An identifier that is a property
  name of \<open>Object.prototype\<close> (\<open>constructor\<close>, \<open>toString\<close>, \<open>__proto__\<close>, ...) would be
  found through the prototype chain; \<open>plainIdentifiers\<close> below states that the input has
  no such identifier.
\<close>

record state =
  references :: "string \<rightharpoonup> nodeRecord"
  metaData :: "string \<rightharpoonup> meta"
  keys :: "string list"
  tree :: "string list"
  rootTreeIsSorted :: bool

datatype fault = TypeError

text \<open>
  \<open>references[v]\<close> converts \<open>v\<close> to a property key: \<open>null\<close> becomes the string \<open>"null"\<close>.
  \<open>if (v)\<close> is false for \<open>null\<close> and for the empty string.
\<close>

definition propertyKey :: "string option \<Rightarrow> string" where
  "propertyKey v = (case v of None \<Rightarrow> ''null'' | Some s \<Rightarrow> s)"

definition truthy :: "string option \<Rightarrow> bool" where
  "truthy v = (case v of None \<Rightarrow> False | Some s \<Rightarrow> s \<noteq> [])"

definition initial :: state where
  "initial = \<lparr>references = Map.empty, metaData = Map.empty, keys = [],
              tree = [], rootTreeIsSorted = False\<rparr>"

section \<open>Phase 1: the index\<close>

definition newRecord :: "node \<Rightarrow> nodeRecord" where
  "newRecord n = \<lparr>nodeId = nodeId n, name = name n, parentId = parentId n,
                  previousSiblingId = previousSiblingId n, children = []\<rparr>"

definition newMeta :: meta where
  "newMeta = \<lparr>isLastNode = True, childrenAreSorted = False\<rparr>"

definition indexNode :: "node \<Rightarrow> state \<Rightarrow> state" where
  "indexNode n st = st
     \<lparr>references := (references st)(nodeId n \<mapsto> newRecord n),
      metaData := (metaData st)(nodeId n \<mapsto> newMeta),
      keys := (if nodeId n \<in> set (keys st) then keys st else keys st @ [nodeId n])\<rparr>"

definition phase1 :: "node list \<Rightarrow> state \<Rightarrow> state" where
  "phase1 unsortedNodes st = fold indexNode unsortedNodes st"

section \<open>Phase 2: the last nodes\<close>

text \<open>
  \<open>if (previousSiblingRef) previousSiblingMeta.isLastNode = false\<close>: a write through an
  undefined \<open>previousSiblingMeta\<close> would throw.
\<close>

definition markPrevious :: "node \<Rightarrow> state \<Rightarrow> fault + state" where
  "markPrevious n st =
     (let k = propertyKey (previousSiblingId n) in
      case references st k of
        None \<Rightarrow> Inr st
      | Some previousSiblingRef \<Rightarrow>
          (case metaData st k of
             None \<Rightarrow> Inl TypeError
           | Some previousSiblingMeta \<Rightarrow>
               Inr (st\<lparr>metaData := (metaData st)(k \<mapsto> previousSiblingMeta\<lparr>isLastNode := False\<rparr>)\<rparr>)))"

fun phase2 :: "node list \<Rightarrow> state \<Rightarrow> fault + state" where
  "phase2 [] st = Inr st"
| "phase2 (n # ns) st =
     (case markPrevious n st of Inl e \<Rightarrow> Inl e | Inr st' \<Rightarrow> phase2 ns st')"

section \<open>Phase 3: the tree\<close>

text \<open>
  The loop \<open>while (nodeRef) { sortedChildren.unshift(nodeRef); nodeRef =
  references[nodeRef.previousSiblingId] }\<close>. It has no bound, so it is a partial function:
  \<open>None\<close> is a walk that never leaves the loop.
\<close>

partial_function (option) walk ::
  "(string \<rightharpoonup> nodeRecord) \<Rightarrow> string \<Rightarrow> string list \<Rightarrow> string list option" where
  "walk refs k sortedChildren =
     (case refs k of
        None \<Rightarrow> Some sortedChildren
      | Some nodeRef \<Rightarrow> walk refs (propertyKey (previousSiblingId nodeRef)) (k # sortedChildren))"

declare walk.simps [code]

text \<open>Lines 99 to 104: the sorted run goes to the parent's \<open>children\<close> or to \<open>tree\<close>.\<close>

definition place :: "nodeRecord \<Rightarrow> string list \<Rightarrow> state \<Rightarrow> fault + state" where
  "place initialNodeRef sortedChildren st =
     (if truthy (parentId initialNodeRef) then
        (case references st (propertyKey (parentId initialNodeRef)) of
           None \<Rightarrow> Inl TypeError
         | Some p \<Rightarrow> Inr (st\<lparr>references := (references st)
                      (propertyKey (parentId initialNodeRef) \<mapsto> p\<lparr>children := sortedChildren\<rparr>)\<rparr>))
      else Inr (st\<lparr>tree := sortedChildren, rootTreeIsSorted := True\<rparr>))"

text \<open>Line 105: \<open>if (parentRef) parentMeta.childrenAreSorted = true\<close>.\<close>

definition markSorted :: "string \<Rightarrow> meta option \<Rightarrow> state \<Rightarrow> state" where
  "markSorted pk parentMeta st =
     (case parentMeta of
        None \<Rightarrow> st
      | Some pm \<Rightarrow> st\<lparr>metaData := (metaData st)(pk \<mapsto> pm\<lparr>childrenAreSorted := True\<rparr>)\<rparr>)"

text \<open>
  The callback of phase 3 for one key (lines 75 to 107). \<open>None\<close>: the walk does not
  return; \<open>Some (Inl TypeError)\<close>: a property of \<open>undefined\<close> is read or written
  (\<open>nodeMeta.isLastNode\<close>, \<open>nodeRef.parentId\<close>, \<open>parentMeta.childrenAreSorted\<close>, or the
  assignment of line 100); \<open>Some (Inr st)\<close>: the callback returns with the variables as in
  \<open>st\<close>.
\<close>

definition sortNode :: "string \<Rightarrow> state \<Rightarrow> (fault + state) option" where
  "sortNode k st =
     (case metaData st k of
        None \<Rightarrow> Some (Inl TypeError)
      | Some nodeMeta \<Rightarrow>
          if \<not> isLastNode nodeMeta then Some (Inr st)
          else
     (case references st k of
        None \<Rightarrow> Some (Inl TypeError)
      | Some initialNodeRef \<Rightarrow>
            let pk = propertyKey (parentId initialNodeRef);
                parentRef = references st pk;
                parentMeta = metaData st pk
            in if parentRef \<noteq> None \<and> parentMeta = None then Some (Inl TypeError)
               else if parentRef \<noteq> None
                       \<and> (case parentMeta of None \<Rightarrow> False | Some pm \<Rightarrow> childrenAreSorted pm)
                    then Some (Inr st)
               else if parentRef = None \<and> rootTreeIsSorted st then Some (Inr st)
               else
                 (case walk (references st) k [] of
                    None \<Rightarrow> None
                  | Some sortedChildren \<Rightarrow>
                      (case place initialNodeRef sortedChildren st of
                         Inl e \<Rightarrow> Some (Inl e)
                       | Inr st' \<Rightarrow>
                           Some (Inr (if parentRef \<noteq> None then markSorted pk parentMeta st'
                                      else st'))))))"

fun forEach :: "('a \<Rightarrow> state \<Rightarrow> (fault + state) option) \<Rightarrow> 'a list \<Rightarrow> state
    \<Rightarrow> (fault + state) option" where
  "forEach f [] st = Some (Inr st)"
| "forEach f (x # xs) st =
     (case f x st of
        None \<Rightarrow> None
      | Some (Inl e) \<Rightarrow> Some (Inl e)
      | Some (Inr st') \<Rightarrow> forEach f xs st')"

text \<open>
  \<open>Object.keys(references)\<close>: the own keys that are array indices (canonical decimal
  numerals below \<open>2^32 - 1\<close>) in ascending numeric order, then the other keys in the
  order of their creation.
\<close>

definition digit :: "char \<Rightarrow> bool" where
  "digit c = (c \<in> set ''0123456789'')"

definition numericValue :: "string \<Rightarrow> int" where
  "numericValue s = foldl (\<lambda>n c. 10 * n + (of_char c - 48)) 0 s"

definition isArrayIndex :: "string \<Rightarrow> bool" where
  "isArrayIndex s =
     (case s of
        [] \<Rightarrow> False
      | c # cs \<Rightarrow> list_all digit s \<and> (if c = CHR ''0'' then cs = [] else True)
          \<and> length s \<le> 10 \<and> numericValue s < 4294967295)"

definition ObjectKeys :: "string list \<Rightarrow> string list" where
  "ObjectKeys ks = sort_key numericValue (filter isArrayIndex ks)
     @ filter (\<lambda>k. \<not> isArrayIndex k) ks"

definition phase3 :: "state \<Rightarrow> (fault + state) option" where
  "phase3 st = forEach sortNode (ObjectKeys (keys st)) st"

section \<open>The transformation\<close>

text \<open>
  \<open>buildTree\<close> from the parsed array (line 21) to the variables at line 110: the array
  \<open>tree\<close>, each of its nodes with the \<open>children\<close> it has in the returned store. Reading
  the source file is not modelled; the serialisation of line 111 follows below.
\<close>

definition buildTree :: "node list \<Rightarrow> (fault + state) option" where
  "buildTree unsortedNodes =
     (case phase2 unsortedNodes (phase1 unsortedNodes initial) of
        Inl e \<Rightarrow> Some (Inl e)
      | Inr st \<Rightarrow> phase3 st)"

section \<open>Auxiliary notions\<close>

text \<open>An input record whose \<open>name\<close> is its \<open>nodeId\<close>, for the examples.\<close>

definition item :: "string \<Rightarrow> string option \<Rightarrow> string option \<Rightarrow> node" where
  "item i p q = \<lparr>nodeId = i, name = i, parentId = p, previousSiblingId = q\<rparr>"

text \<open>The keys that the records of the input read as \<open>previousSiblingId\<close> in phase 2.\<close>

definition named :: "node list \<Rightarrow> string set" where
  "named ns = set (map (\<lambda>n. propertyKey (previousSiblingId n)) ns)"



text \<open>The fields of a node object that no phase assigns.\<close>

definition fields :: "nodeRecord \<Rightarrow> node" where
  "fields r = \<lparr>nodeId = nodeId r, name = name r, parentId = parentId r,
               previousSiblingId = previousSiblingId r\<rparr>"

text \<open>
  The callback of phase 3 returns at once for key \<open>k\<close>: the node is not a last node,
  or its parent's \<open>childrenAreSorted\<close> (or \<open>rootTreeIsSorted\<close>) is set.
\<close>

definition skips :: "string \<Rightarrow> state \<Rightarrow> bool" where
  "skips k st =
     (case metaData st k of
        None \<Rightarrow> False
      | Some m \<Rightarrow>
          (if isLastNode m then
             (case references st k of
                None \<Rightarrow> False
              | Some r \<Rightarrow>
                  (case references st (propertyKey (parentId r)) of
                     None \<Rightarrow> rootTreeIsSorted st
                   | Some pr \<Rightarrow>
                       (case metaData st (propertyKey (parentId r)) of
                          None \<Rightarrow> False
                        | Some pm \<Rightarrow> childrenAreSorted pm)))
           else True))"

text \<open>
  What a callback of phase 3 may change from \<open>st\<close> to \<open>st'\<close>: \<open>children\<close>, \<open>tree\<close>,
  and the two sorted flags from false to true.
\<close>

definition advances :: "state \<Rightarrow> state \<Rightarrow> bool" where
  "advances st st' =
     (keys st' = keys st
      \<and> (\<forall>k. map_option fields (references st' k) = map_option fields (references st k))
      \<and> (\<forall>k. map_option isLastNode (metaData st' k) = map_option isLastNode (metaData st k))
      \<and> (\<forall>k m. metaData st k = Some m \<and> childrenAreSorted m
            \<longrightarrow> (\<exists>m'. metaData st' k = Some m' \<and> childrenAreSorted m'))
      \<and> (rootTreeIsSorted st \<longrightarrow> rootTreeIsSorted st'))"

text \<open>
  A sibling run laid out left to right: every key of \<open>c\<close> is held by \<open>refs\<close> with
  \<open>parentId\<close> \<open>g\<close>, the first names \<open>prev\<close> as its \<open>previousSiblingId\<close> and each later
  one names its left neighbour.
\<close>

fun siblingRun ::
  "(string \<rightharpoonup> nodeRecord) \<Rightarrow> string option \<Rightarrow> string option \<Rightarrow> string list \<Rightarrow> bool" where
  "siblingRun refs g prev [] = True"
| "siblingRun refs g prev (k # ks) =
     (case refs k of
        None \<Rightarrow> False
      | Some r \<Rightarrow> parentId r = g \<and> previousSiblingId r = prev \<and> siblingRun refs g (Some k) ks)"

text \<open>
  A layout lists, for each parent (\<open>None\<close>: the root level), its children left to right.
\<close>

definition runOf :: "(string option \<times> string list) list \<Rightarrow> string option \<Rightarrow> string list" where
  "runOf layout g = (case map_of layout g of None \<Rightarrow> [] | Some c \<Rightarrow> c)"

text \<open>
  The input encodes the layout: the \<open>nodeId\<close>s are unique, no node is called \<open>"null"\<close>
  (so a \<open>null\<close> reference names no node), every node is in the run of its \<open>parentId\<close>,
  and every run is a chain without repetition that starts at a node whose
  \<open>previousSiblingId\<close> is \<open>null\<close>.
\<close>

definition siblingChains :: "node list \<Rightarrow> (string option \<times> string list) list \<Rightarrow> bool" where
  "siblingChains ns layout =
     (distinct (map nodeId ns) \<and> ''null'' \<notin> set (map nodeId ns)
      \<and> list_all (\<lambda>n. nodeId n \<in> set (runOf layout (parentId n))) ns
      \<and> list_all (\<lambda>(g, c). distinct c \<and> siblingRun (references (phase1 ns initial)) g None c)
           layout)"

text \<open>Moreover every \<open>parentId\<close> is \<open>null\<close> or the non-empty \<open>nodeId\<close> of a node.\<close>

definition wellFormed :: "node list \<Rightarrow> (string option \<times> string list) list \<Rightarrow> bool" where
  "wellFormed ns layout =
     (siblingChains ns layout
      \<and> list_all (\<lambda>n. case parentId n of
                        None \<Rightarrow> True
                      | Some p \<Rightarrow> p \<noteq> [] \<and> p \<in> set (map nodeId ns)) ns)"

text \<open>The variables after phase 2, in closed form.\<close>

definition indexed :: "node list \<Rightarrow> state" where
  "indexed ns =
     \<lparr>references = references (phase1 ns initial),
      metaData = (\<lambda>k. if k \<in> nodeId ` set ns
                       then Some \<lparr>isLastNode = k \<notin> named ns, childrenAreSorted = False\<rparr>
                       else None),
      keys = keys (phase1 ns initial), tree = [], rootTreeIsSorted = False\<rparr>"

section \<open>The written output\<close>

text \<open>
  Line 111 writes \<open>JSON.stringify(tree, null, 2)\<close>. The serialisation of a node object is
  the object with its four fields and the serialisations of the objects in its \<open>children\<close>,
  which are read from the store when the node is reached. \<open>JSON.stringify\<close> throws a
  \<open>TypeError\<close> when an object is reached again below itself (a circular structure);
  \<open>avail\<close> lists the keys of the objects that are not on the path from the top.
\<close>

datatype json = Json node "json list"

fun ident :: "json \<Rightarrow> string" where
  "ident (Json n cs) = nodeId n"

fun kids :: "json \<Rightarrow> json list" where
  "kids (Json n cs) = cs"

text \<open>The objects of a serialisation: the object itself and those nested below it.\<close>

fun objects :: "json \<Rightarrow> json list" where
  "objects (Json n cs) = Json n cs # concat (map objects cs)"

fun collect :: "(fault + 'a) list \<Rightarrow> fault + 'a list" where
  "collect [] = Inr []"
| "collect (x # xs) =
     (case x of
        Inl e \<Rightarrow> Inl e
      | Inr y \<Rightarrow> (case collect xs of Inl e \<Rightarrow> Inl e | Inr ys \<Rightarrow> Inr (y # ys)))"

function stringify :: "(string \<rightharpoonup> nodeRecord) \<Rightarrow> string list \<Rightarrow> string \<Rightarrow> fault + json" where
  "stringify refs avail k =
     (if k \<in> set avail then
        (case refs k of
           None \<Rightarrow> Inl TypeError
         | Some r \<Rightarrow>
             (case collect (map (stringify refs (removeAll k avail)) (children r)) of
                Inl e \<Rightarrow> Inl e
              | Inr cs \<Rightarrow> Inr (Json (fields r) cs)))
      else Inl TypeError)"
  by pat_completeness auto
termination
  by (relation "measure (\<lambda>(refs, avail, k). length avail)") (auto simp: length_removeAll_less)

declare stringify.simps [simp del]

definition stringifyTree :: "state \<Rightarrow> fault + json list" where
  "stringifyTree st = collect (map (stringify (references st) (keys st)) (tree st))"

text \<open>
  The whole run, from the parsed array to the array that line 111 hands to \<open>writeFile\<close>:
  \<open>None\<close> when \<open>buildTree\<close> does not return, a fault when a phase or the serialisation
  throws.
\<close>

definition written :: "node list \<Rightarrow> (fault + json list) option" where
  "written unsortedNodes =
     (case buildTree unsortedNodes of
        None \<Rightarrow> None
      | Some (Inl e) \<Rightarrow> Some (Inl e)
      | Some (Inr st) \<Rightarrow> Some (stringifyTree st))"

section \<open>Conditions on the input\<close>

text \<open>
  The property names of \<open>Object.prototype\<close>. \<open>references\<close> and \<open>metaData\<close> are plain
  objects, so \<open>references[k]\<close> for one of these names finds the inherited property when
  there is no own one, and an assignment to \<open>references["__proto__"]\<close> creates no own
  property. The definitions above model own properties only: they describe the code for
  the inputs in which no \<open>nodeId\<close> and no key read from a \<open>parentId\<close> or a
  \<open>previousSiblingId\<close> is one of these names.
\<close>

definition prototypeNames :: "string list" where
  "prototypeNames =
     [''constructor'', ''__defineGetter__'', ''__defineSetter__'', ''hasOwnProperty'',
      ''__lookupGetter__'', ''__lookupSetter__'', ''isPrototypeOf'', ''propertyIsEnumerable'',
      ''toString'', ''valueOf'', ''__proto__'', ''toLocaleString'']"

definition plainIdentifiers :: "node list \<Rightarrow> bool" where
  "plainIdentifiers ns =
     list_all (\<lambda>n. nodeId n \<notin> set prototypeNames
                 \<and> propertyKey (parentId n) \<notin> set prototypeNames
                 \<and> propertyKey (previousSiblingId n) \<notin> set prototypeNames) ns"


text \<open>
  The number of \<open>parentId\<close> references from key \<open>k\<close> up to a node whose \<open>parentId\<close> is
  \<open>null\<close>, when there are fewer than \<open>b\<close>. In a rooted input every node has such a depth:
  the \<open>parentId\<close> references form no cycle.
\<close>

fun depthOf :: "(string \<rightharpoonup> nodeRecord) \<Rightarrow> nat \<Rightarrow> string \<Rightarrow> nat option" where
  "depthOf refs 0 k = None"
| "depthOf refs (Suc b) k =
     (case refs k of
        None \<Rightarrow> None
      | Some r \<Rightarrow>
          (case parentId r of
             None \<Rightarrow> Some 0
           | Some p \<Rightarrow> map_option Suc (depthOf refs b p)))"

definition rooted :: "node list \<Rightarrow> bool" where
  "rooted ns =
     list_all (\<lambda>n. depthOf (references (phase1 ns initial)) (length ns) (nodeId n) \<noteq> None) ns"

section \<open>Evaluation\<close>

lemmas run_defs = buildTree_def phase1_def phase3_def indexNode_def newRecord_def newMeta_def
  initial_def markPrevious_def propertyKey_def sortNode_def ObjectKeys_def isArrayIndex_def
  digit_def numericValue_def place_def truthy_def markSorted_def Let_def item_def

section \<open>Phase 1 builds the index\<close>

lemma phase1_Nil: "phase1 [] st = st"
  by (simp add: phase1_def)

lemma phase1_snoc: "phase1 (ns @ [n]) st = indexNode n (phase1 ns st)"
  by (simp add: phase1_def)

lemma references_phase1:
  "references (phase1 ns st) k =
     (case find (\<lambda>n. nodeId n = k) (rev ns) of
        None \<Rightarrow> references st k
      | Some n \<Rightarrow> Some (newRecord n))"
  by (induction ns rule: rev_induct) (simp_all add: phase1_Nil phase1_snoc indexNode_def)

lemma metaData_phase1:
  "metaData (phase1 ns st) k =
     (case find (\<lambda>n. nodeId n = k) (rev ns) of
        None \<Rightarrow> metaData st k
      | Some n \<Rightarrow> Some newMeta)"
  by (induction ns rule: rev_induct) (simp_all add: phase1_Nil phase1_snoc indexNode_def)

lemma set_keys_phase1: "set (keys (phase1 ns st)) = set (keys st) \<union> nodeId ` set ns"
  by (induction ns rule: rev_induct) (auto simp: phase1_Nil phase1_snoc indexNode_def)

lemma distinct_keys_phase1: "distinct (keys st) \<Longrightarrow> distinct (keys (phase1 ns st))"
  by (induction ns rule: rev_induct) (auto simp: phase1_Nil phase1_snoc indexNode_def)

lemma tree_phase1: "tree (phase1 ns st) = tree st"
  by (induction ns rule: rev_induct) (simp_all add: phase1_Nil phase1_snoc indexNode_def)

lemma root_phase1: "rootTreeIsSorted (phase1 ns st) = rootTreeIsSorted st"
  by (induction ns rule: rev_induct) (simp_all add: phase1_Nil phase1_snoc indexNode_def)

lemma references_phase1_defined:
  "(references (phase1 ns st) k \<noteq> None) = (references st k \<noteq> None \<or> k \<in> nodeId ` set ns)"
  by (induction ns rule: rev_induct) (auto simp: phase1_Nil phase1_snoc indexNode_def)

lemma metaData_phase1_defined:
  "(metaData (phase1 ns st) k \<noteq> None) = (metaData st k \<noteq> None \<or> k \<in> nodeId ` set ns)"
  by (induction ns rule: rev_induct) (auto simp: phase1_Nil phase1_snoc indexNode_def)

section \<open>Phase 2 clears the flag of every named key\<close>

lemma markPrevious_result:
  assumes "dom (references st) \<subseteq> dom (metaData st)"
  shows "\<exists>st'. markPrevious n st = Inr st' \<and> references st' = references st
    \<and> keys st' = keys st \<and> tree st' = tree st \<and> rootTreeIsSorted st' = rootTreeIsSorted st
    \<and> (\<forall>k. metaData st' k = (if k = propertyKey (previousSiblingId n) \<and> references st k \<noteq> None
         then map_option (\<lambda>m. m\<lparr>isLastNode := False\<rparr>) (metaData st k) else metaData st k))"
proof (cases "references st (propertyKey (previousSiblingId n))")
  case None
  then show ?thesis by (auto simp: markPrevious_def)
next
  case (Some r)
  with assms obtain m where m: "metaData st (propertyKey (previousSiblingId n)) = Some m"
    by blast
  show ?thesis
    by (auto simp: markPrevious_def Some m)
qed

lemma phase2_result:
  "dom (references st) \<subseteq> dom (metaData st) \<Longrightarrow>
   \<exists>st'. phase2 ns st = Inr st' \<and> references st' = references st \<and> keys st' = keys st
     \<and> tree st' = tree st \<and> rootTreeIsSorted st' = rootTreeIsSorted st
     \<and> (\<forall>k. metaData st' k = (if k \<in> named ns \<and> references st k \<noteq> None
            then map_option (\<lambda>m. m\<lparr>isLastNode := False\<rparr>) (metaData st k) else metaData st k))"
proof (induction ns arbitrary: st)
  case Nil
  then show ?case by (simp add: named_def)
next
  case (Cons n ns)
  from markPrevious_result[OF Cons.prems, of n]
  obtain st1 where st1: "markPrevious n st = Inr st1" "references st1 = references st"
    "keys st1 = keys st" "tree st1 = tree st" "rootTreeIsSorted st1 = rootTreeIsSorted st"
    "\<forall>k. metaData st1 k = (if k = propertyKey (previousSiblingId n) \<and> references st k \<noteq> None
         then map_option (\<lambda>m. m\<lparr>isLastNode := False\<rparr>) (metaData st k) else metaData st k)"
    by blast
  have "dom (references st1) \<subseteq> dom (metaData st1)"
    using Cons.prems st1(2) st1(6) by (auto simp: dom_def split: if_splits)
  from Cons.IH[OF this] obtain st' where st': "phase2 ns st1 = Inr st'" "references st' = references st1"
    "keys st' = keys st1" "tree st' = tree st1" "rootTreeIsSorted st' = rootTreeIsSorted st1"
    "\<forall>k. metaData st' k = (if k \<in> named ns \<and> references st1 k \<noteq> None
            then map_option (\<lambda>m. m\<lparr>isLastNode := False\<rparr>) (metaData st1 k) else metaData st1 k)"
    by blast
  have "\<forall>k. metaData st' k = (if k \<in> named (n # ns) \<and> references st k \<noteq> None
            then map_option (\<lambda>m. m\<lparr>isLastNode := False\<rparr>) (metaData st k) else metaData st k)"
    using st'(6) st1(6) st1(2) by (auto simp: named_def option.map_comp comp_def)
  with st1 st' show ?case by simp
qed


lemma phase2_phase1:
  "\<exists>st. phase2 ns (phase1 ns initial) = Inr st
     \<and> references st = references (phase1 ns initial)
     \<and> keys st = keys (phase1 ns initial) \<and> tree st = [] \<and> \<not> rootTreeIsSorted st
     \<and> (\<forall>k. metaData st k = (if k \<in> nodeId ` set ns
            then Some \<lparr>isLastNode = k \<notin> named ns, childrenAreSorted = False\<rparr> else None))"
proof -
  have m: "metaData (phase1 ns initial) k = (if k \<in> nodeId ` set ns then Some newMeta else None)" for k
    using metaData_phase1_defined[of ns initial k]
    by (auto simp: metaData_phase1 initial_def split: option.splits)
  have r: "(references (phase1 ns initial) k \<noteq> None) = (k \<in> nodeId ` set ns)" for k
    using references_phase1_defined[of ns initial k] by (simp add: initial_def)
  have d: "dom (references (phase1 ns initial)) \<subseteq> dom (metaData (phase1 ns initial))"
  proof
    fix k assume "k \<in> dom (references (phase1 ns initial))"
    then have "references (phase1 ns initial) k \<noteq> None" by blast
    then have "k \<in> nodeId ` set ns" by (simp only: r)
    then show "k \<in> dom (metaData (phase1 ns initial))" by (simp add: m dom_def)
  qed
  from phase2_result[OF d, of ns] obtain st where st: "phase2 ns (phase1 ns initial) = Inr st"
    "references st = references (phase1 ns initial)" "keys st = keys (phase1 ns initial)"
    "tree st = tree (phase1 ns initial)" "rootTreeIsSorted st = rootTreeIsSorted (phase1 ns initial)"
    "\<forall>k. metaData st k = (if k \<in> named ns \<and> references (phase1 ns initial) k \<noteq> None
            then map_option (\<lambda>m. m\<lparr>isLastNode := False\<rparr>) (metaData (phase1 ns initial) k)
            else metaData (phase1 ns initial) k)"
    by blast
  have "metaData st k = (if k \<in> nodeId ` set ns
            then Some \<lparr>isLastNode = k \<notin> named ns, childrenAreSorted = False\<rparr> else None)" for k
  proof -
    have "(\<exists>y. references (phase1 ns initial) k = Some y) = (k \<in> nodeId ` set ns)"
      using r[of k] by simp
    moreover have "(references (phase1 ns initial) k = None) = (k \<notin> nodeId ` set ns)"
      using r[of k] by blast
    ultimately show ?thesis
      using st(6) by (simp add: m newMeta_def)
  qed
  with st show ?thesis by (simp add: tree_phase1 root_phase1 initial_def)
qed

section \<open>Claims about the index and the last nodes\<close>

text \<open>
  C9. Given an empty input array, the transformation returns with the root list \<open>tree\<close>
  at its initial value, the empty array.
\<close>

theorem empty_input_empty_output: "buildTree [] = Some (Inr initial) \<and> tree initial = []"
  by (simp add: run_defs)



section \<open>The backward walk\<close>

lemma walk_undefined: "refs k = None \<Longrightarrow> walk refs k acc = Some acc"
  by (subst walk.simps) simp

lemma walk_defined:
  "refs k = Some r \<Longrightarrow> walk refs k acc = walk refs (propertyKey (previousSiblingId r)) (k # acc)"
  by (subst walk.simps) simp





section \<open>One callback of phase 3\<close>

lemma sortNode_InrE:
  assumes ret: "sortNode k st = Some (Inr st')"
  obtains (skip) "st' = st" "skips k st"
  | (nested) r m pr pm sc where
      "references st k = Some r" "metaData st k = Some m" "isLastNode m"
      "references st (propertyKey (parentId r)) = Some pr"
      "metaData st (propertyKey (parentId r)) = Some pm" "\<not> childrenAreSorted pm"
      "walk (references st) k [] = Some sc" "truthy (parentId r)"
      "st' = st\<lparr>references := (references st)(propertyKey (parentId r) \<mapsto> pr\<lparr>children := sc\<rparr>),
                 metaData := (metaData st)(propertyKey (parentId r) \<mapsto> pm\<lparr>childrenAreSorted := True\<rparr>)\<rparr>"
  | (falsy) r m pr pm sc where
      "references st k = Some r" "metaData st k = Some m" "isLastNode m"
      "references st (propertyKey (parentId r)) = Some pr"
      "metaData st (propertyKey (parentId r)) = Some pm" "\<not> childrenAreSorted pm"
      "walk (references st) k [] = Some sc" "\<not> truthy (parentId r)"
      "st' = st\<lparr>tree := sc, rootTreeIsSorted := True,
                 metaData := (metaData st)(propertyKey (parentId r) \<mapsto> pm\<lparr>childrenAreSorted := True\<rparr>)\<rparr>"
  | (root) r m sc where
      "references st k = Some r" "metaData st k = Some m" "isLastNode m"
      "references st (propertyKey (parentId r)) = None" "\<not> rootTreeIsSorted st"
      "walk (references st) k [] = Some sc" "\<not> truthy (parentId r)"
      "st' = st\<lparr>tree := sc, rootTreeIsSorted := True\<rparr>"
proof -
  from ret obtain m where m: "metaData st k = Some m"
    by (cases "metaData st k") (simp_all add: sortNode_def)
  show thesis
  proof (cases "isLastNode m")
    case False
    with ret m have "st' = st" by (simp add: sortNode_def)
    moreover from m False have "skips k st" by (simp add: skips_def)
    ultimately show thesis by (rule skip)
  next
    case last: True
    from ret m last obtain r where r: "references st k = Some r"
      by (cases "references st k") (simp_all add: sortNode_def)
    show thesis
    proof (cases "references st (propertyKey (parentId r))")
      case None
      show thesis
      proof (cases "rootTreeIsSorted st")
        case True
        with ret r m last None have "st' = st" by (simp add: sortNode_def Let_def)
        moreover from r m last None True have "skips k st" by (simp add: skips_def)
        ultimately show thesis by (rule skip)
      next
        case False
        from ret r m last None False obtain sc where sc: "walk (references st) k [] = Some sc"
          by (cases "walk (references st) k []") (simp_all add: sortNode_def Let_def)
        have nt: "\<not> truthy (parentId r)"
          using ret r m last None False sc
          by (auto simp: sortNode_def Let_def place_def)
        with ret r m last None False sc have "st' = st\<lparr>tree := sc, rootTreeIsSorted := True\<rparr>"
          by (simp add: sortNode_def Let_def place_def)
        with r m last None False sc nt show thesis by (rule root)
      qed
    next
      case (Some pr)
      from ret r m last Some obtain pm where pm: "metaData st (propertyKey (parentId r)) = Some pm"
        by (cases "metaData st (propertyKey (parentId r))") (simp_all add: sortNode_def Let_def)
      show thesis
      proof (cases "childrenAreSorted pm")
        case True
        with ret r m last Some pm have "st' = st" by (simp add: sortNode_def Let_def)
        moreover from r m last Some pm True have "skips k st" by (simp add: skips_def)
        ultimately show thesis by (rule skip)
      next
        case False
        from ret r m last Some pm False obtain sc where sc: "walk (references st) k [] = Some sc"
          by (cases "walk (references st) k []") (simp_all add: sortNode_def Let_def)
        show thesis
        proof (cases "truthy (parentId r)")
          case True
          with ret r m last Some pm False sc
          have "st' = st\<lparr>references := (references st)(propertyKey (parentId r) \<mapsto> pr\<lparr>children := sc\<rparr>),
                 metaData := (metaData st)(propertyKey (parentId r) \<mapsto> pm\<lparr>childrenAreSorted := True\<rparr>)\<rparr>"
            by (simp add: sortNode_def Let_def place_def markSorted_def)
          with r m last Some pm False sc True show thesis by (rule nested)
        next
          case nt: False
          with ret r m last Some pm False sc
          have "st' = st\<lparr>tree := sc, rootTreeIsSorted := True,
                 metaData := (metaData st)(propertyKey (parentId r) \<mapsto> pm\<lparr>childrenAreSorted := True\<rparr>)\<rparr>"
            by (simp add: sortNode_def Let_def place_def markSorted_def)
          with r m last Some pm False sc nt show thesis by (rule falsy)
        qed
      qed
    qed
  qed
qed


lemma advances_refl: "advances st st"
  by (simp add: advances_def)

lemma advances_trans: "advances a b \<Longrightarrow> advances b c \<Longrightarrow> advances a c"
  unfolding advances_def by (metis (no_types, lifting))

lemma sortNode_advances: "sortNode k st = Some (Inr st') \<Longrightarrow> advances st st'"
  by (erule sortNode_InrE) (auto simp: advances_def fields_def)

lemma skips_returns: "skips k st \<Longrightarrow> sortNode k st = Some (Inr st)"
  by (auto simp: skips_def sortNode_def Let_def split: option.splits if_splits)

lemma sortNode_skips: "sortNode k st = Some (Inr st') \<Longrightarrow> skips k st'"
  by (erule sortNode_InrE) (auto simp: skips_def)

lemma skips_advances:
  assumes "skips k st" "advances st st'"
  shows "skips k st'"
proof -
  from assms(1) obtain m where m: "metaData st k = Some m"
    by (auto simp: skips_def split: option.splits)
  from assms(2) have f: "map_option fields (references st' j) = map_option fields (references st j)"
    and l: "map_option isLastNode (metaData st' j) = map_option isLastNode (metaData st j)" for j
    by (simp_all add: advances_def)
  from l[of k] m obtain m' where m': "metaData st' k = Some m'" "isLastNode m' = isLastNode m" by auto
  show ?thesis
  proof (cases "isLastNode m")
    case False
    with m' show ?thesis by (simp add: skips_def)
  next
    case True
    with assms(1) m obtain r where r: "references st k = Some r"
      by (auto simp: skips_def split: option.splits)
    from f[of k] r obtain r' where r': "references st' k = Some r'" "fields r' = fields r" by auto
    have p: "parentId r' = parentId r" using r'(2) by (simp add: fields_def)
    show ?thesis
    proof (cases "references st (propertyKey (parentId r))")
      case None
      with assms(1) r m True have "rootTreeIsSorted st" by (simp add: skips_def)
      with assms(2) have "rootTreeIsSorted st'" by (simp add: advances_def)
      moreover from f[of "propertyKey (parentId r)"] None
      have "references st' (propertyKey (parentId r)) = None" by simp
      ultimately show ?thesis using r' m' p by (simp add: skips_def)
    next
      case (Some pr)
      with assms(1) r m True obtain pm where pm: "metaData st (propertyKey (parentId r)) = Some pm"
        "childrenAreSorted pm" by (auto simp: skips_def split: option.splits)
      with assms(2) obtain pm' where pm': "metaData st' (propertyKey (parentId r)) = Some pm'"
        "childrenAreSorted pm'" unfolding advances_def by blast
      from f[of "propertyKey (parentId r)"] Some
      obtain pr' where "references st' (propertyKey (parentId r)) = Some pr'" by auto
      with pm' r' m' p show ?thesis by (simp add: skips_def)
    qed
  qed
qed

section \<open>The loop of phase 3\<close>

lemma forEach_invariant:
  assumes "forEach f ks st = Some (Inr st')" "I st"
    and "\<And>k s s'. k \<in> set ks \<Longrightarrow> I s \<Longrightarrow> f k s = Some (Inr s') \<Longrightarrow> I s'"
  shows "I st'"
  using assms
proof (induction ks arbitrary: st)
  case Nil
  then show ?case by simp
next
  case (Cons k ks)
  from Cons.prems(1) obtain s1 where s1: "f k st = Some (Inr s1)" "forEach f ks s1 = Some (Inr st')"
    by (auto split: option.splits sum.splits)
  have "I s1" using Cons.prems(3)[OF _ Cons.prems(2) s1(1)] by simp
  show ?case
  proof (rule Cons.IH[OF s1(2) \<open>I s1\<close>])
    fix j s s'
    assume "j \<in> set ks" "I s" "f j s = Some (Inr s')"
    then show "I s'" using Cons.prems(3)[of j s s'] by simp
  qed
qed

lemma forEach_advances: "forEach sortNode ks st = Some (Inr st') \<Longrightarrow> advances st st'"
proof (induction ks arbitrary: st)
  case Nil
  then show ?case by (simp add: advances_refl)
next
  case (Cons k ks)
  from Cons.prems obtain s1 where s1: "sortNode k st = Some (Inr s1)"
    "forEach sortNode ks s1 = Some (Inr st')"
    by (auto split: option.splits sum.splits)
  from sortNode_advances[OF s1(1)] Cons.IH[OF s1(2)] show ?case by (rule advances_trans)
qed

lemma forEach_skips:
  "forEach sortNode ks st = Some (Inr st') \<Longrightarrow> k \<in> set ks \<Longrightarrow> skips k st'"
proof (induction ks arbitrary: st)
  case Nil
  then show ?case by simp
next
  case (Cons j ks)
  from Cons.prems(1) obtain s1 where s1: "sortNode j st = Some (Inr s1)"
    "forEach sortNode ks s1 = Some (Inr st')"
    by (auto split: option.splits sum.splits)
  show ?case
  proof (cases "k = j")
    case True
    with sortNode_skips[OF s1(1)] forEach_advances[OF s1(2)] show ?thesis
      by (simp add: skips_advances)
  next
    case False
    with Cons.prems(2) have "k \<in> set ks" by simp
    from Cons.IH[OF s1(2) this] show ?thesis .
  qed
qed

lemma forEach_all_skip:
  "(\<And>k. k \<in> set ks \<Longrightarrow> skips k st) \<Longrightarrow> forEach sortNode ks st = Some (Inr st)"
  by (induction ks) (simp_all add: skips_returns)

lemma set_ObjectKeys: "set (ObjectKeys ks) = set ks"
  by (auto simp: ObjectKeys_def)

lemma distinct_ObjectKeys: "distinct ks \<Longrightarrow> distinct (ObjectKeys ks)"
  by (auto simp: ObjectKeys_def)

text \<open>
  C5. When phase 3 has returned, running it a second time over the same \<open>references\<close>,
  \<open>metaData\<close>, \<open>tree\<close> and \<open>rootTreeIsSorted\<close> returns with every variable unchanged:
  each last node is skipped through \<open>childrenAreSorted\<close> or \<open>rootTreeIsSorted\<close>, so no
  \<open>children\<close> sequence and not the root list is assigned again.
\<close>

theorem phase3_twice: "phase3 st = Some (Inr st') \<Longrightarrow> phase3 st' = Some (Inr st')"
proof -
  assume run: "phase3 st = Some (Inr st')"
  then have f: "forEach sortNode (ObjectKeys (keys st)) st = Some (Inr st')"
    by (simp add: phase3_def)
  from forEach_advances[OF f] have "keys st' = keys st" by (simp add: advances_def)
  moreover have "forEach sortNode (ObjectKeys (keys st)) st' = Some (Inr st')"
    by (rule forEach_all_skip) (rule forEach_skips[OF f])
  ultimately show ?thesis by (simp add: phase3_def)
qed


theorem phase3_twice_witness:
  "\<exists>st st'. phase2 [item ''P'' None None, item ''A'' (Some ''P'') None,
                     item ''B'' (Some ''P'') (Some ''A''), item ''C'' (Some ''P'') (Some ''A'')]
              (phase1 [item ''P'' None None, item ''A'' (Some ''P'') None,
                     item ''B'' (Some ''P'') (Some ''A''), item ''C'' (Some ''P'') (Some ''A'')]
                 initial) = Inr st
     \<and> phase3 st = Some (Inr st') \<and> phase3 st' = Some (Inr st')
     \<and> map_option children (references st' ''P'') = Some [''A'', ''B'']
     \<and> tree st' = [''P'']"
proof -
  have "\<exists>st st'. phase2 [item ''P'' None None, item ''A'' (Some ''P'') None,
                     item ''B'' (Some ''P'') (Some ''A''), item ''C'' (Some ''P'') (Some ''A'')]
              (phase1 [item ''P'' None None, item ''A'' (Some ''P'') None,
                     item ''B'' (Some ''P'') (Some ''A''), item ''C'' (Some ''P'') (Some ''A'')]
                 initial) = Inr st
     \<and> phase3 st = Some (Inr st')
     \<and> map_option children (references st' ''P'') = Some [''A'', ''B'']
     \<and> tree st' = [''P'']"
    by (simp add: run_defs walk.simps)
  then show ?thesis using phase3_twice by blast
qed

section \<open>Termination of phase 3\<close>







section \<open>The index and the input\<close>

lemma find_Some_member: "find P xs = Some x \<Longrightarrow> x \<in> set xs \<and> P x"
  by (induction xs) (auto split: if_splits)

lemma index_from_input:
  assumes "references (phase1 ns initial) k = Some r"
  shows "\<exists>n \<in> set ns. nodeId n = k \<and> r = newRecord n"
proof -
  from assms obtain n where "find (\<lambda>n. nodeId n = k) (rev ns) = Some n" "r = newRecord n"
    by (auto simp: references_phase1 initial_def split: option.splits)
  with find_Some_member[of "\<lambda>n. nodeId n = k" "rev ns" n] show ?thesis by auto
qed

lemma index_defined: "(references (phase1 ns initial) k = None) = (k \<notin> nodeId ` set ns)"
proof -
  have "(references (phase1 ns initial) k \<noteq> None) = (k \<in> nodeId ` set ns)"
    by (simp only: references_phase1_defined) (simp add: initial_def)
  then show ?thesis by blast
qed


lemma fields_previousSiblingId: "fields r' = fields r \<Longrightarrow> previousSiblingId r' = previousSiblingId r"
  by (auto simp: fields_def)

lemma fields_parentId: "fields r' = fields r \<Longrightarrow> parentId r' = parentId r"
  by (auto simp: fields_def)

section \<open>Dangling and self-naming references\<close>

text \<open>
  C3. A \<open>parentId\<close> that names no node of the index is not tolerated: line 100 writes
  \<open>children\<close> through the undefined \<open>references[initialNodeRef.parentId]\<close>.
\<close>

theorem dangling_parentId_throws:
  "buildTree [item ''1'' (Some ''X'') None] = Some (Inl TypeError)"
  by (simp add: run_defs walk.simps)




section \<open>Sibling runs\<close>

lemma siblingRun_append:
  "siblingRun refs g prev (xs @ ys) =
     (siblingRun refs g prev xs \<and> siblingRun refs g (if xs = [] then prev else Some (last xs)) ys)"
  by (induction xs arbitrary: prev) (auto split: option.splits)

lemma siblingRun_member:
  "siblingRun refs g prev c \<Longrightarrow> k \<in> set c \<Longrightarrow> \<exists>r. refs k = Some r \<and> parentId r = g"
  by (induction c arbitrary: prev) (auto split: option.splits)

lemma siblingRun_named:
  "siblingRun refs g prev c \<Longrightarrow> k \<in> set (butlast c)
     \<Longrightarrow> \<exists>j r. j \<in> set c \<and> refs j = Some r \<and> previousSiblingId r = Some k"
proof (induction c arbitrary: prev)
  case Nil
  then show ?case by simp
next
  case (Cons a c)
  show ?case
  proof (cases c)
    case Nil
    with Cons.prems show ?thesis by simp
  next
    case (Cons b c')
    show ?thesis
    proof (cases "k = a")
      case True
      from Cons.prems(1) Cons obtain r where "refs b = Some r" "previousSiblingId r = Some a"
        by (auto split: option.splits)
      with True Cons show ?thesis by auto
    next
      case False
      with Cons.prems(2) Cons have "k \<in> set (butlast c)" by simp
      moreover from Cons.prems(1) have "siblingRun refs g (Some a) c"
        by (auto split: option.splits)
      ultimately obtain j r where "j \<in> set c" "refs j = Some r" "previousSiblingId r = Some k"
        using Cons.IH by blast
      then show ?thesis by auto
    qed
  qed
qed

lemma siblingRun_fields:
  assumes "\<And>k. map_option fields (refs' k) = map_option fields (refs k)"
  shows "siblingRun refs' g prev c = siblingRun refs g prev c"
proof (induction c arbitrary: prev)
  case Nil
  then show ?case by simp
next
  case (Cons a c)
  from assms[of a] show ?case
    by (cases "refs a"; cases "refs' a") (auto simp: fields_def Cons.IH)
qed

lemma walk_run:
  "siblingRun refs g prev c \<Longrightarrow> c \<noteq> [] \<Longrightarrow> refs (propertyKey prev) = None
     \<Longrightarrow> walk refs (last c) acc = Some (c @ acc)"
proof (induction c arbitrary: acc rule: rev_induct)
  case Nil
  then show ?case by simp
next
  case (snoc k xs)
  from snoc.prems(1) have xs: "siblingRun refs g prev xs"
    and k: "siblingRun refs g (if xs = [] then prev else Some (last xs)) [k]"
    by (simp_all add: siblingRun_append)
  from k obtain r where r: "refs k = Some r"
    "previousSiblingId r = (if xs = [] then prev else Some (last xs))"
    by (auto split: option.splits)
  show ?case
  proof (cases "xs = []")
    case True
    with r snoc.prems(3) show ?thesis
      by (simp add: walk_defined[where refs = refs, OF r(1)] walk_undefined)
  next
    case False
    with r have "walk refs k acc = walk refs (last xs) (k # acc)"
      by (simp add: walk_defined[where refs = refs, OF r(1)] propertyKey_def)
    with snoc.IH[OF xs False snoc.prems(3), of "k # acc"] show ?thesis by simp
  qed
qed

lemma last_or_butlast: "c \<noteq> [] \<Longrightarrow> k \<in> set c \<Longrightarrow> k = last c \<or> k \<in> set (butlast c)"
  by (induction c) (auto split: if_splits)

lemma map_filter_key:
  "distinct (map f xs) \<Longrightarrow> k \<in> f ` set xs \<Longrightarrow> map f (filter (\<lambda>x. f x = k) xs) = [k]"
proof (induction xs)
  case Nil
  then show ?case by simp
next
  case (Cons x xs)
  show ?case
  proof (cases "f x = k")
    case True
    from Cons.prems(1) have "f x \<notin> f ` set xs" by simp
    then have "\<And>y. y \<in> set xs \<Longrightarrow> f y \<noteq> f x" by (metis imageI)
    with True have "filter (\<lambda>x. f x = k) xs = []"
      by (auto simp: filter_empty_conv)
    with True show ?thesis by simp
  next
    case False
    with Cons show ?thesis by auto
  qed
qed

section \<open>Well-formed input\<close>

lemma index_distinct:
  assumes "distinct (map nodeId ns)" "n \<in> set ns"
  shows "references (phase1 ns initial) (nodeId n) = Some (newRecord n)"
proof -
  from assms(2) have "references (phase1 ns initial) (nodeId n) \<noteq> None"
    by (simp add: index_defined)
  then obtain r where r: "references (phase1 ns initial) (nodeId n) = Some r" by blast
  from index_from_input[OF r] obtain n' where n': "n' \<in> set ns" "nodeId n' = nodeId n"
    "r = newRecord n'" by blast
  from assms n'(1,2) have "n' = n" by (meson distinct_map inj_onD)
  with r n'(3) show ?thesis by simp
qed

lemma runOf_layout:
  assumes "siblingChains ns layout" "runOf layout g \<noteq> []"
  shows "distinct (runOf layout g)"
    and "siblingRun (references (phase1 ns initial)) g None (runOf layout g)"
proof -
  from assms(2) obtain c where c: "map_of layout g = Some c" "runOf layout g = c"
    by (auto simp: runOf_def split: option.splits)
  then have "(g, c) \<in> set layout" by (simp add: map_of_SomeD)
  with assms(1) have "distinct c \<and> siblingRun (references (phase1 ns initial)) g None c"
    by (auto simp: siblingChains_def list_all_iff)
  with c(2) show "distinct (runOf layout g)"
    and "siblingRun (references (phase1 ns initial)) g None (runOf layout g)" by simp_all
qed

lemma run_member:
  assumes "siblingChains ns layout" "k \<in> set (runOf layout g)"
  shows "\<exists>n \<in> set ns. nodeId n = k \<and> parentId n = g"
proof -
  from assms(2) have ne: "runOf layout g \<noteq> []" by auto
  from siblingRun_member[OF runOf_layout(2)[OF assms(1) ne] assms(2)]
  obtain r where r: "references (phase1 ns initial) k = Some r" "parentId r = g" by blast
  from index_from_input[OF r(1)] r(2) show ?thesis by (auto simp: newRecord_def)
qed

lemma run_butlast_named:
  assumes "siblingChains ns layout" "k \<in> set (butlast (runOf layout g))"
  shows "k \<in> named ns"
proof -
  from assms(2) have ne: "runOf layout g \<noteq> []" by auto
  from siblingRun_named[OF runOf_layout(2)[OF assms(1) ne] assms(2)]
  obtain j r where r: "references (phase1 ns initial) j = Some r" "previousSiblingId r = Some k"
    by blast
  from index_from_input[OF r(1)] r(2) obtain n where "n \<in> set ns" "previousSiblingId n = Some k"
    by (auto simp: newRecord_def)
  then show ?thesis by (force simp: named_def propertyKey_def)
qed

lemma run_last_unnamed:
  assumes wf: "siblingChains ns layout" and ne: "runOf layout g \<noteq> []"
  shows "last (runOf layout g) \<notin> named ns"
proof
  let ?c = "runOf layout g"
  let ?idx = "references (phase1 ns initial)"
  assume "last ?c \<in> named ns"
  then obtain n' where n': "n' \<in> set ns" "propertyKey (previousSiblingId n') = last ?c"
    by (auto simp: named_def)
  from wf have dist: "distinct (map nodeId ns)" and nonull: "''null'' \<notin> nodeId ` set ns"
    by (simp_all add: siblingChains_def)
  from ne have lastin: "last ?c \<in> set ?c" by simp
  from run_member[OF wf lastin] obtain nl where nl: "nl \<in> set ns" "nodeId nl = last ?c"
    "parentId nl = g" by blast
  show False
  proof (cases "previousSiblingId n'")
    case None
    with n'(2) have "last ?c = ''null''" by (simp add: propertyKey_def)
    with nl nonull show False by force
  next
    case (Some q)
    with n'(2) have q: "q = last ?c" by (simp add: propertyKey_def)
    let ?c' = "runOf layout (parentId n')"
    from wf n'(1) have mem: "nodeId n' \<in> set ?c'"
      by (simp add: siblingChains_def list_all_iff)
    then have ne': "?c' \<noteq> []" by auto
    from mem obtain xs ys where split: "?c' = xs @ nodeId n' # ys" by (meson split_list)
    from runOf_layout(2)[OF wf ne'] split
    have "siblingRun ?idx (parentId n') (if xs = [] then None else Some (last xs)) (nodeId n' # ys)"
      by (simp add: siblingRun_append)
    with index_distinct[OF dist n'(1)]
    have "previousSiblingId n' = (if xs = [] then None else Some (last xs))"
      by (simp add: newRecord_def)
    with Some q have xs: "xs \<noteq> []" "last xs = last ?c" by (auto split: if_splits)
    have "last xs \<in> set xs" using xs(1) by simp
    then have "last ?c \<in> set ?c'" using split xs(2) by simp
    from run_member[OF wf this] obtain m where m: "m \<in> set ns" "nodeId m = last ?c"
      "parentId m = parentId n'" by blast
    from dist m(1,2) nl(1,2) have "m = nl" by (metis distinct_map inj_onD)
    with m(3) nl(3) have "parentId n' = g" by simp
    with split have c: "?c = xs @ nodeId n' # ys" by simp
    from runOf_layout(1)[OF wf ne] c have d: "distinct (xs @ nodeId n' # ys)" by simp
    have "last (xs @ nodeId n' # ys) \<in> set (nodeId n' # ys)" by simp
    moreover have "last xs \<in> set xs" using xs(1) by simp
    ultimately show False using d xs(2) c by (metis disjoint_iff distinct_append)
  qed
qed

text \<open>
  C6, as amended. For an input with unique \<open>nodeId\<close>s, none of them the string \<open>"null"\<close>
  or a property name of \<open>Object.prototype\<close>, in which every sibling group is one chain
  without repetition that starts at a node with \<open>previousSiblingId\<close> \<open>null\<close>, after phase 2
  exactly one node of each sibling group has \<open>isLastNode\<close> true: the last node of the
  group's chain.
\<close>

theorem one_last_node_per_group:
  assumes plain: "plainIdentifiers unsortedNodes"
    and wf: "siblingChains unsortedNodes layout"
  shows "\<exists>st. phase2 unsortedNodes (phase1 unsortedNodes initial) = Inr st
     \<and> (\<forall>n \<in> set unsortedNodes.
           map nodeId [m \<leftarrow> unsortedNodes. parentId m = parentId n
              \<and> map_option isLastNode (metaData st (nodeId m)) = Some True]
           = [last (runOf layout (parentId n))])"
proof -
  from phase2_phase1[of unsortedNodes] obtain st where
    st: "phase2 unsortedNodes (phase1 unsortedNodes initial) = Inr st"
      "\<forall>k. metaData st k = (if k \<in> nodeId ` set unsortedNodes
            then Some \<lparr>isLastNode = k \<notin> named unsortedNodes, childrenAreSorted = False\<rparr> else None)"
    by blast
  from wf have dist: "distinct (map nodeId unsortedNodes)" by (simp add: siblingChains_def)
  have "map nodeId [m \<leftarrow> unsortedNodes. parentId m = parentId n
              \<and> map_option isLastNode (metaData st (nodeId m)) = Some True]
           = [last (runOf layout (parentId n))]" if n: "n \<in> set unsortedNodes" for n
  proof -
    let ?c = "runOf layout (parentId n)"
    from wf n have "nodeId n \<in> set ?c" by (simp add: siblingChains_def list_all_iff)
    then have ne: "?c \<noteq> []" by auto
    then have lastin: "last ?c \<in> set ?c" by simp
    have eq: "(parentId m = parentId n
          \<and> map_option isLastNode (metaData st (nodeId m)) = Some True) = (nodeId m = last ?c)"
      if m: "m \<in> set unsortedNodes" for m
    proof
      assume a: "parentId m = parentId n
          \<and> map_option isLastNode (metaData st (nodeId m)) = Some True"
      with st(2) m have un: "nodeId m \<notin> named unsortedNodes" by auto
      from wf m a have "nodeId m \<in> set ?c" by (auto simp: siblingChains_def list_all_iff)
      from last_or_butlast[OF ne this] un run_butlast_named[OF wf]
      show "nodeId m = last ?c" by blast
    next
      assume b: "nodeId m = last ?c"
      from run_member[OF wf lastin] obtain nl where nl: "nl \<in> set unsortedNodes"
        "nodeId nl = last ?c" "parentId nl = parentId n" by blast
      from dist m nl(1,2) b have "m = nl" by (metis distinct_map inj_onD)
      with nl(3) have "parentId m = parentId n" by simp
      moreover have "nodeId m \<in> nodeId ` set unsortedNodes" using m by simp
      with run_last_unnamed[OF wf ne] b st(2)
      have "map_option isLastNode (metaData st (nodeId m)) = Some True" by simp
      ultimately show "parentId m = parentId n
          \<and> map_option isLastNode (metaData st (nodeId m)) = Some True" by simp
    qed
    have "[m \<leftarrow> unsortedNodes. parentId m = parentId n
              \<and> map_option isLastNode (metaData st (nodeId m)) = Some True]
        = [m \<leftarrow> unsortedNodes. nodeId m = last ?c]"
      by (rule filter_cong[OF refl]) (rule eq)
    moreover from run_member[OF wf lastin] have "last ?c \<in> nodeId ` set unsortedNodes" by force
    ultimately show ?thesis by (simp add: map_filter_key[OF dist])
  qed
  with st(1) show ?thesis by blast
qed


theorem one_last_node_per_group_witness:
  "plainIdentifiers
     [item ''P'' None None, item ''A'' (Some ''P'') None, item ''B'' (Some ''P'') (Some ''A'')]
   \<and> siblingChains
     [item ''P'' None None, item ''A'' (Some ''P'') None, item ''B'' (Some ''P'') (Some ''A'')]
     [(None, [''P'']), (Some ''P'', [''A'', ''B''])]
   \<and> (\<exists>st. phase2
          [item ''P'' None None, item ''A'' (Some ''P'') None, item ''B'' (Some ''P'') (Some ''A'')]
          (phase1
            [item ''P'' None None, item ''A'' (Some ''P'') None, item ''B'' (Some ''P'') (Some ''A'')]
            initial) = Inr st
        \<and> map nodeId [m \<leftarrow> [item ''P'' None None, item ''A'' (Some ''P'') None,
                              item ''B'' (Some ''P'') (Some ''A'')].
              parentId m = Some ''P''
              \<and> map_option isLastNode (metaData st (nodeId m)) = Some True] = [''B''])"
proof -
  let ?ns = "[item ''P'' None None, item ''A'' (Some ''P'') None,
              item ''B'' (Some ''P'') (Some ''A'')]"
  let ?layout = "[(None, [''P'']), (Some ''P'', [''A'', ''B''])]"
  have g: "plainIdentifiers ?ns"
    by (simp add: plainIdentifiers_def prototypeNames_def item_def propertyKey_def)
  have h: "siblingChains ?ns ?layout"
    by (simp add: siblingChains_def runOf_def run_defs)
  from one_last_node_per_group[OF g h] obtain st where
    st: "phase2 ?ns (phase1 ?ns initial) = Inr st
      \<and> (\<forall>n \<in> set ?ns. map nodeId [m \<leftarrow> ?ns. parentId m = parentId n
              \<and> map_option isLastNode (metaData st (nodeId m)) = Some True]
           = [last (runOf ?layout (parentId n))])" ..
  have mem: "item ''B'' (Some ''P'') (Some ''A'') \<in> set ?ns" by simp
  have p: "parentId (item ''B'' (Some ''P'') (Some ''A'')) = Some ''P''" by (simp add: item_def)
  have l: "last (runOf ?layout (Some ''P'')) = ''B''" by (simp add: runOf_def)
  from bspec[OF conjunct2[OF st] mem]
  have res: "map nodeId [m \<leftarrow> ?ns. parentId m = Some ''P''
              \<and> map_option isLastNode (metaData st (nodeId m)) = Some True] = [''B'']"
    unfolding p l .
  show ?thesis
    by (intro conjI exI[of _ st]) (rule g, rule h, rule conjunct1[OF st], rule res)
qed

text \<open>
  C6 as stated fails. The single node called \<open>"null"\<close> has a unique \<open>nodeId\<close> and its
  group is the chain of one node with \<open>previousSiblingId\<close> \<open>null\<close>; phase 2 reads that
  \<open>null\<close> as the key \<open>"null"\<close> and clears the node's own flag, so no node of the group
  has \<open>isLastNode\<close> true.
\<close>

theorem one_last_node_per_group_counterexample:
  "distinct (map nodeId [item ''null'' None None])
   \<and> previousSiblingId (item ''null'' None None) = None
   \<and> map_sum id (\<lambda>st. map nodeId [m \<leftarrow> [item ''null'' None None]. parentId m = None
          \<and> map_option isLastNode (metaData st (nodeId m)) = Some True])
       (phase2 [item ''null'' None None] (phase1 [item ''null'' None None] initial))
     = Inr []"
  by (simp add: run_defs)

section \<open>The variables during phase 3\<close>

lemma phase2_indexed: "phase2 ns (phase1 ns initial) = Inr (indexed ns)"
proof -
  from phase2_phase1[of ns] obtain st where
    st: "phase2 ns (phase1 ns initial) = Inr st"
      "references st = references (phase1 ns initial)"
      "keys st = keys (phase1 ns initial)" "tree st = []" "\<not> rootTreeIsSorted st"
      "\<forall>k. metaData st k = (if k \<in> nodeId ` set ns
            then Some \<lparr>isLastNode = k \<notin> named ns, childrenAreSorted = False\<rparr> else None)"
    by blast
  from st(6) have "metaData st = (\<lambda>k. if k \<in> nodeId ` set ns
            then Some \<lparr>isLastNode = k \<notin> named ns, childrenAreSorted = False\<rparr> else None)"
    by (intro ext) simp
  with st(2-5) have "st = indexed ns" by (simp add: indexed_def)
  with st(1) show ?thesis by simp
qed

lemma buildTree_forEach:
  "buildTree ns = forEach sortNode (ObjectKeys (keys (indexed ns))) (indexed ns)"
  by (simp add: buildTree_def phase2_indexed phase3_def)

lemma set_keys_indexed: "set (ObjectKeys (keys (indexed ns))) = nodeId ` set ns"
  by (simp add: set_ObjectKeys indexed_def set_keys_phase1 initial_def)

lemma advances_fieldsD:
  "advances st st' \<Longrightarrow> map_option fields (references st' k) = map_option fields (references st k)"
  by (simp add: advances_def)

lemma advances_lastD:
  "advances st st' \<Longrightarrow> map_option isLastNode (metaData st' k) = map_option isLastNode (metaData st k)"
  by (simp add: advances_def)

lemma references_indexed: "references (indexed ns) = references (phase1 ns initial)"
  by (simp add: indexed_def)

lemma metaData_indexed:
  "metaData (indexed ns) k = (if k \<in> nodeId ` set ns
     then Some \<lparr>isLastNode = k \<notin> named ns, childrenAreSorted = False\<rparr> else None)"
  by (simp add: indexed_def)

lemma fields_newRecord: "fields (newRecord n) = n"
  by (simp add: fields_def newRecord_def)

lemma during_references:
  assumes "advances (indexed ns) s" "references s k = Some r"
  shows "\<exists>n \<in> set ns. nodeId n = k \<and> fields r = n"
proof -
  from advances_fieldsD[OF assms(1), of k] assms(2)
  have "map_option fields (references (phase1 ns initial) k) = Some (fields r)"
    by (simp add: references_indexed)
  then obtain r0 where r0: "references (phase1 ns initial) k = Some r0" "fields r0 = fields r"
    by auto
  from index_from_input[OF r0(1)] r0(2) show ?thesis by (auto simp: fields_newRecord)
qed

lemma during_references_defined:
  assumes "advances (indexed ns) s" "k \<in> nodeId ` set ns"
  shows "\<exists>r. references s k = Some r"
proof -
  from assms(2) obtain r0 where "references (phase1 ns initial) k = Some r0"
    using index_defined[of ns k] by auto
  with advances_fieldsD[OF assms(1), of k]
  have "map_option fields (references s k) = Some (fields r0)"
    by (simp add: references_indexed)
  then show ?thesis by auto
qed

lemma during_metaData:
  assumes "advances (indexed ns) s" "metaData s k = Some m"
  shows "k \<in> nodeId ` set ns \<and> isLastNode m = (k \<notin> named ns)"
proof -
  from advances_lastD[OF assms(1), of k] assms(2)
  have "map_option isLastNode (metaData (indexed ns) k) = Some (isLastNode m)"
    by simp
  then show ?thesis by (auto simp: metaData_indexed split: if_splits)
qed

lemma during_metaData_defined:
  assumes "advances (indexed ns) s" "k \<in> nodeId ` set ns"
  shows "\<exists>m. metaData s k = Some m"
proof -
  from advances_lastD[OF assms(1), of k] assms(2)
  have "map_option isLastNode (metaData s k) = Some (k \<notin> named ns)"
    by (simp add: metaData_indexed)
  then show ?thesis by auto
qed

lemma during_siblingRun:
  assumes "advances (indexed ns) s"
  shows "siblingRun (references s) g prev c = siblingRun (references (phase1 ns initial)) g prev c"
  by (rule siblingRun_fields) (simp add: advances_fieldsD[OF assms] references_indexed)

lemma during_unresolved:
  assumes "advances (indexed ns) s"
  shows "(references s k = None) = (references (phase1 ns initial) k = None)"
proof -
  from advances_fieldsD[OF assms, of k] have "map_option fields (references s k)
      = map_option fields (references (phase1 ns initial) k)"
    by (simp add: references_indexed)
  then show ?thesis by (cases "references s k"; cases "references (phase1 ns initial) k") simp_all
qed


lemma during_index:
  assumes "advances (indexed ns) s" "references s k = Some r"
  shows "\<exists>r0. references (phase1 ns initial) k = Some r0 \<and> fields r = fields r0"
proof -
  from advances_fieldsD[OF assms(1), of k] assms(2)
  have "map_option fields (references (phase1 ns initial) k) = Some (fields r)"
    by (simp add: references_indexed)
  then show ?thesis by auto
qed

section \<open>A sibling run reaches its parent\<close>

lemma forEach_reach:
  assumes "forEach f ks st = Some (Inr st')" "t \<in> set ks" "A st"
    and stepA: "\<And>k s s'. A s \<Longrightarrow> k \<noteq> t \<Longrightarrow> f k s = Some (Inr s') \<Longrightarrow> A s'"
    and stepT: "\<And>s s'. A s \<Longrightarrow> f t s = Some (Inr s') \<Longrightarrow> B s'"
    and stepB: "\<And>k s s'. B s \<Longrightarrow> f k s = Some (Inr s') \<Longrightarrow> B s'"
  shows "B st'"
  using assms(1-3)
proof (induction ks arbitrary: st)
  case Nil
  then show ?case by simp
next
  case (Cons j ks)
  from Cons.prems(1) obtain s1 where s1: "f j st = Some (Inr s1)" "forEach f ks s1 = Some (Inr st')"
    by (auto split: option.splits sum.splits)
  show ?case
  proof (cases "j = t")
    case True
    with s1(1) Cons.prems(3) have "B s1" by (simp add: stepT)
    show ?thesis
      by (rule forEach_invariant[where I = B, OF s1(2) \<open>B s1\<close>]) (rule stepB)
  next
    case False
    with s1(1) Cons.prems(3) have "A s1" using stepA by blast
    moreover from False Cons.prems(2) have "t \<in> set ks" by auto
    ultimately show ?thesis using Cons.IH[OF s1(2)] by simp
  qed
qed

lemma run_children:
  assumes run: "siblingRun (references (phase1 unsortedNodes initial)) (Some p) first c"
    and ne: "c \<noteq> []"
    and first: "references (phase1 unsortedNodes initial) (propertyKey first) = None"
    and parent: "p \<in> nodeId ` set unsortedNodes" "p \<noteq> []"
    and whole: "\<forall>n \<in> set unsortedNodes. propertyKey (parentId n) = p \<longrightarrow> nodeId n \<in> set c"
    and unnamed: "last c \<notin> named unsortedNodes"
    and ret: "buildTree unsortedNodes = Some (Inr st)"
  shows "map_option children (references st p) = Some c"
proof -
  let ?idx = "references (phase1 unsortedNodes initial)"
  let ?st2 = "indexed unsortedNodes"
  define t where "t = last c"
  from ne have tc: "t \<in> set c" by (simp add: t_def)
  from siblingRun_member[OF run tc] obtain rt where rt: "?idx t = Some rt" "parentId rt = Some p"
    by blast
  then have tin: "t \<in> nodeId ` set unsortedNodes" using index_defined[of unsortedNodes t] by auto
  have uniq: "j = t"
    if adv: "advances ?st2 s" and r: "references s j = Some r" and m: "metaData s j = Some m"
      and l: "isLastNode m" and pk: "propertyKey (parentId r) = p" for s j r m
  proof -
    from during_index[OF adv r] obtain r0 where r0: "?idx j = Some r0" "fields r = fields r0"
      by blast
    from index_from_input[OF r0(1)] obtain n where n: "n \<in> set unsortedNodes" "nodeId n = j"
      "r0 = newRecord n" by blast
    from r0(2) n(3) have "parentId n = parentId r"
      by (simp add: fields_parentId[OF r0(2)] newRecord_def)
    with whole n(1,2) pk have jc: "j \<in> set c" by auto
    from during_metaData[OF adv m] l have un: "j \<notin> named unsortedNodes" by simp
    have "j \<notin> set (butlast c)"
    proof
      assume "j \<in> set (butlast c)"
      from siblingRun_named[OF run this] obtain j' r' where "?idx j' = Some r'"
        "previousSiblingId r' = Some j" by blast
      with index_from_input[of unsortedNodes j' r'] obtain n' where "n' \<in> set unsortedNodes"
        "previousSiblingId n' = Some j" by (auto simp: newRecord_def)
      then have "j \<in> named unsortedNodes" by (force simp: named_def propertyKey_def)
      with un show False by simp
    qed
    with last_or_butlast[OF ne jc] show ?thesis by (simp add: t_def)
  qed
  define A where "A = (\<lambda>s. advances ?st2 s
      \<and> (\<exists>pm. metaData s p = Some pm \<and> \<not> childrenAreSorted pm))"
  define B where "B = (\<lambda>s. advances ?st2 s
      \<and> (\<exists>pr. references s p = Some pr \<and> children pr = c)
      \<and> (\<exists>pm. metaData s p = Some pm \<and> childrenAreSorted pm))"
  have stepA: "A s'" if a: "A s" and jt: "j \<noteq> t" and sn: "sortNode j s = Some (Inr s')" for j s s'
  proof -
    from a obtain pm where adv: "advances ?st2 s" and pm: "metaData s p = Some pm"
      "\<not> childrenAreSorted pm" by (auto simp: A_def)
    have adv': "advances ?st2 s'" using adv sortNode_advances[OF sn] by (rule advances_trans)
    from sn show ?thesis
    proof (cases rule: sortNode_InrE)
      case skip
      with a show ?thesis by simp
    next
      case (nested r m pr0 pm0 sc)
      with uniq[OF adv, of j r m] jt have "propertyKey (parentId r) \<noteq> p" by blast
      with nested(9) pm adv' show ?thesis by (simp add: A_def)
    next
      case (falsy r m pr0 pm0 sc)
      with uniq[OF adv, of j r m] jt have "propertyKey (parentId r) \<noteq> p" by blast
      with falsy(9) pm adv' show ?thesis by (simp add: A_def)
    next
      case (root r m sc)
      with pm adv' show ?thesis by (simp add: A_def)
    qed
  qed
  have stepT: "B s'" if a: "A s" and sn: "sortNode t s = Some (Inr s')" for s s'
  proof -
    from a obtain pm where adv: "advances ?st2 s" and pm: "metaData s p = Some pm"
      "\<not> childrenAreSorted pm" by (auto simp: A_def)
    have adv': "advances ?st2 s'" using adv sortNode_advances[OF sn] by (rule advances_trans)
    from during_references_defined[OF adv tin] obtain r where r: "references s t = Some r" by blast
    from during_index[OF adv r] rt(1) have "fields r = fields rt" by auto
    from fields_parentId[OF this] rt(2) have pr: "parentId r = Some p" by simp
    from during_metaData_defined[OF adv tin] obtain m where m: "metaData s t = Some m" by blast
    with during_metaData[OF adv m] unnamed have l: "isLastNode m" by (simp add: t_def)
    from during_references_defined[OF adv parent(1)] obtain pr0 where
      pr0: "references s p = Some pr0" by blast
    have w: "walk (references s) t [] = Some c"
      using walk_run[of "references s" "Some p" first c "[]"] run ne first
      by (simp add: during_siblingRun[OF adv] during_unresolved[OF adv] t_def)
    from sn show ?thesis
    proof (cases rule: sortNode_InrE)
      case skip
      with r m l pr pr0 pm show ?thesis by (simp add: skips_def propertyKey_def)
    next
      case (nested r' m' pr' pm' sc)
      with r pr w have "sc = c" "propertyKey (parentId r') = p" by (simp_all add: propertyKey_def)
      with nested(9) adv' show ?thesis by (simp add: B_def)
    next
      case (falsy r' m' pr' pm' sc)
      with r pr parent(2) show ?thesis by (simp add: truthy_def)
    next
      case (root r' m' sc)
      with r pr pr0 show ?thesis by (simp add: propertyKey_def)
    qed
  qed
  have stepB: "B s'" if b: "B s" and sn: "sortNode j s = Some (Inr s')" for j s s'
  proof -
    from b obtain pr pm where adv: "advances ?st2 s" and pr: "references s p = Some pr"
      "children pr = c" and pm: "metaData s p = Some pm" "childrenAreSorted pm"
      by (auto simp: B_def)
    have adv': "advances ?st2 s'" using adv sortNode_advances[OF sn] by (rule advances_trans)
    from sn show ?thesis
    proof (cases rule: sortNode_InrE)
      case skip
      with b show ?thesis by simp
    next
      case (nested r m pr0 pm0 sc)
      with pm have "propertyKey (parentId r) \<noteq> p" by auto
      with nested(9) pr pm adv' show ?thesis by (simp add: B_def)
    next
      case (falsy r m pr0 pm0 sc)
      with pr pm adv' show ?thesis by (simp add: B_def)
    next
      case (root r m sc)
      with pr pm adv' show ?thesis by (simp add: B_def)
    qed
  qed
  have init: "A ?st2"
    using parent(1) by (simp add: A_def advances_refl metaData_indexed)
  from ret have run3: "forEach sortNode (ObjectKeys (keys ?st2)) ?st2 = Some (Inr st)"
    by (simp add: buildTree_forEach)
  have tmem: "t \<in> set (ObjectKeys (keys ?st2))" using tin by (simp add: set_keys_indexed)
  have "B st"
  proof (rule forEach_reach[where A = A and B = B and f = sortNode, OF run3 tmem init])
    fix k s s' assume "A s" "k \<noteq> t" "sortNode k s = Some (Inr s')"
    then show "A s'" by (rule stepA)
  next
    fix s s' assume "A s" "sortNode t s = Some (Inr s')"
    then show "B s'" by (rule stepT)
  next
    fix k s s' assume "B s" "sortNode k s = Some (Inr s')"
    then show "B s'" by (rule stepB)
  qed
  then show ?thesis by (auto simp: B_def)
qed


section \<open>The root list\<close>

lemma during_input:
  assumes "advances (indexed ns) s" "references s k = Some r"
  shows "\<exists>n \<in> set ns. nodeId n = k \<and> parentId n = parentId r
           \<and> previousSiblingId n = previousSiblingId r"
proof -
  from during_index[OF assms] obtain r0 where r0: "references (phase1 ns initial) k = Some r0"
    "fields r = fields r0" by blast
  from index_from_input[OF r0(1)] obtain n where n: "n \<in> set ns" "nodeId n = k"
    "r0 = newRecord n" by blast
  from n(3) have "parentId n = parentId r0" "previousSiblingId n = previousSiblingId r0"
    by (simp_all add: newRecord_def)
  with fields_parentId[OF r0(2)] fields_previousSiblingId[OF r0(2)] n(1,2)
  show ?thesis by auto
qed

lemma during_not_falsy:
  assumes adv: "advances (indexed ns) s"
    and nonull: "''null'' \<notin> nodeId ` set ns"
    and parents: "\<forall>n \<in> set ns. case parentId n of None \<Rightarrow> True
                    | Some q \<Rightarrow> q \<noteq> [] \<and> q \<in> nodeId ` set ns"
    and r: "references s k = Some r"
    and pr: "references s (propertyKey (parentId r)) = Some pr"
  shows "truthy (parentId r)"
proof (cases "parentId r")
  case None
  with pr have "references s ''null'' \<noteq> None" by (simp add: propertyKey_def)
  then have "''null'' \<in> nodeId ` set ns"
    using during_unresolved[OF adv, of "''null''"] index_defined[of ns "''null''"] by simp
  with nonull show ?thesis by simp
next
  case (Some q)
  from during_input[OF adv r] obtain n where "n \<in> set ns" "parentId n = parentId r" by blast
  with parents Some have "q \<noteq> []" by force
  with Some show ?thesis by (simp add: truthy_def)
qed

lemma during_root:
  assumes adv: "advances (indexed ns) s"
    and parents: "\<forall>n \<in> set ns. case parentId n of None \<Rightarrow> True
                    | Some q \<Rightarrow> q \<noteq> [] \<and> q \<in> nodeId ` set ns"
    and r: "references s k = Some r"
    and nt: "\<not> truthy (parentId r)"
  shows "\<exists>n \<in> set ns. nodeId n = k \<and> parentId n = None"
proof -
  from during_input[OF adv r] obtain n where n: "n \<in> set ns" "nodeId n = k"
    "parentId n = parentId r" by blast
  have "parentId r = None"
  proof (cases "parentId r")
    case None
    then show ?thesis .
  next
    case (Some q)
    with parents n(1,3) have "q \<noteq> []" by force
    with Some nt show ?thesis by (simp add: truthy_def)
  qed
  with n show ?thesis by auto
qed

lemma run_tree:
  assumes run: "siblingRun (references (phase1 ns initial)) None None c"
    and ne: "c \<noteq> []"
    and nonull: "''null'' \<notin> nodeId ` set ns"
    and parents: "\<forall>n \<in> set ns. case parentId n of None \<Rightarrow> True
                    | Some q \<Rightarrow> q \<noteq> [] \<and> q \<in> nodeId ` set ns"
    and whole: "\<forall>n \<in> set ns. parentId n = None \<longrightarrow> nodeId n \<in> set c"
    and unnamed: "last c \<notin> named ns"
    and ret: "buildTree ns = Some (Inr st)"
  shows "tree st = c"
proof -
  let ?idx = "references (phase1 ns initial)"
  let ?st2 = "indexed ns"
  define t where "t = last c"
  from ne have tc: "t \<in> set c" by (simp add: t_def)
  from siblingRun_member[OF run tc] obtain rt where rt: "?idx t = Some rt" "parentId rt = None"
    by blast
  then have tin: "t \<in> nodeId ` set ns" using index_defined[of ns t] by auto
  have null: "references s ''null'' = None" if "advances ?st2 s" for s
    using during_unresolved[OF that, of "''null''"] index_defined[of ns "''null''"] nonull
    by simp
  have uniq: "j = t"
    if adv: "advances ?st2 s" and r: "references s j = Some r" and m: "metaData s j = Some m"
      and l: "isLastNode m" and nt: "\<not> truthy (parentId r)" for s j r m
  proof -
    from during_root[OF adv parents r nt] whole have jc: "j \<in> set c" by auto
    from during_metaData[OF adv m] l have un: "j \<notin> named ns" by simp
    have "j \<notin> set (butlast c)"
    proof
      assume "j \<in> set (butlast c)"
      from siblingRun_named[OF run this] obtain j' r' where "?idx j' = Some r'"
        "previousSiblingId r' = Some j" by blast
      with index_from_input[of ns j' r'] obtain n' where "n' \<in> set ns"
        "previousSiblingId n' = Some j" by (auto simp: newRecord_def)
      then have "j \<in> named ns" by (force simp: named_def propertyKey_def)
      with un show False by simp
    qed
    with last_or_butlast[OF ne jc] show ?thesis by (simp add: t_def)
  qed
  define A where "A = (\<lambda>s. advances ?st2 s \<and> \<not> rootTreeIsSorted s)"
  define B where "B = (\<lambda>s. advances ?st2 s \<and> rootTreeIsSorted s \<and> tree s = c)"
  have stepA: "A s'" if a: "A s" and jt: "j \<noteq> t" and sn: "sortNode j s = Some (Inr s')" for j s s'
  proof -
    from a have adv: "advances ?st2 s" and nr: "\<not> rootTreeIsSorted s" by (auto simp: A_def)
    have adv': "advances ?st2 s'" using adv sortNode_advances[OF sn] by (rule advances_trans)
    from sn show ?thesis
    proof (cases rule: sortNode_InrE)
      case skip
      with a show ?thesis by simp
    next
      case (nested r m pr0 pm0 sc)
      with nr adv' show ?thesis by (simp add: A_def)
    next
      case (falsy r m pr0 pm0 sc)
      with during_not_falsy[OF adv nonull parents falsy(1) falsy(4)] show ?thesis by simp
    next
      case (root r m sc)
      with uniq[OF adv, of j r m] jt show ?thesis by blast
    qed
  qed
  have stepT: "B s'" if a: "A s" and sn: "sortNode t s = Some (Inr s')" for s s'
  proof -
    from a have adv: "advances ?st2 s" and nr: "\<not> rootTreeIsSorted s" by (auto simp: A_def)
    have adv': "advances ?st2 s'" using adv sortNode_advances[OF sn] by (rule advances_trans)
    from during_references_defined[OF adv tin] obtain r where r: "references s t = Some r" by blast
    from during_index[OF adv r] rt(1) have "fields r = fields rt" by auto
    from fields_parentId[OF this] rt(2) have pr: "parentId r = None" by simp
    from during_metaData_defined[OF adv tin] obtain m where m: "metaData s t = Some m" by blast
    with during_metaData[OF adv m] unnamed have l: "isLastNode m" by (simp add: t_def)
    have w: "walk (references s) t [] = Some c"
      using walk_run[of "references s" None None c "[]"] run ne null[OF adv]
      by (simp add: during_siblingRun[OF adv] t_def propertyKey_def)
    from sn show ?thesis
    proof (cases rule: sortNode_InrE)
      case skip
      with r m l pr nr null[OF adv] show ?thesis by (simp add: skips_def propertyKey_def)
    next
      case (nested r' m' pr' pm' sc)
      with r pr show ?thesis by (simp add: truthy_def)
    next
      case (falsy r' m' pr' pm' sc)
      with r pr null[OF adv] show ?thesis by (simp add: propertyKey_def)
    next
      case (root r' m' sc)
      with w have "sc = c" by simp
      with root(8) adv' show ?thesis by (simp add: B_def)
    qed
  qed
  have stepB: "B s'" if b: "B s" and sn: "sortNode j s = Some (Inr s')" for j s s'
  proof -
    from b have adv: "advances ?st2 s" and rs: "rootTreeIsSorted s" and tr: "tree s = c"
      by (auto simp: B_def)
    have adv': "advances ?st2 s'" using adv sortNode_advances[OF sn] by (rule advances_trans)
    from sn show ?thesis
    proof (cases rule: sortNode_InrE)
      case skip
      with b show ?thesis by simp
    next
      case (nested r m pr0 pm0 sc)
      with rs tr adv' show ?thesis by (simp add: B_def)
    next
      case (falsy r m pr0 pm0 sc)
      with during_not_falsy[OF adv nonull parents falsy(1) falsy(4)] show ?thesis by simp
    next
      case (root r m sc)
      with rs show ?thesis by simp
    qed
  qed
  have init: "A ?st2" by (simp add: A_def advances_refl indexed_def)
  from ret have run3: "forEach sortNode (ObjectKeys (keys ?st2)) ?st2 = Some (Inr st)"
    by (simp add: buildTree_forEach)
  have tmem: "t \<in> set (ObjectKeys (keys ?st2))" using tin by (simp add: set_keys_indexed)
  have "B st"
  proof (rule forEach_reach[where A = A and B = B and f = sortNode, OF run3 tmem init])
    fix k s s' assume "A s" "k \<noteq> t" "sortNode k s = Some (Inr s')"
    then show "A s'" by (rule stepA)
  next
    fix s s' assume "A s" "sortNode t s = Some (Inr s')"
    then show "B s'" by (rule stepT)
  next
    fix k s s' assume "B s" "sortNode k s = Some (Inr s')"
    then show "B s'" by (rule stepB)
  qed
  then show ?thesis by (simp add: B_def)
qed

lemma tree_untouched:
  assumes nonull: "''null'' \<notin> nodeId ` set ns"
    and parents: "\<forall>n \<in> set ns. case parentId n of None \<Rightarrow> True
                    | Some q \<Rightarrow> q \<noteq> [] \<and> q \<in> nodeId ` set ns"
    and none: "\<forall>n \<in> set ns. parentId n \<noteq> None"
    and ret: "buildTree ns = Some (Inr st)"
  shows "tree st = []"
proof -
  let ?st2 = "indexed ns"
  define I where "I = (\<lambda>s. advances ?st2 s \<and> tree s = [])"
  have step: "I s'" if i: "I s" and sn: "sortNode j s = Some (Inr s')" for j s s'
  proof -
    from i have adv: "advances ?st2 s" and tr: "tree s = []" by (auto simp: I_def)
    have adv': "advances ?st2 s'" using adv sortNode_advances[OF sn] by (rule advances_trans)
    from sn show ?thesis
    proof (cases rule: sortNode_InrE)
      case skip
      with i show ?thesis by simp
    next
      case (nested r m pr0 pm0 sc)
      with tr adv' show ?thesis by (simp add: I_def)
    next
      case (falsy r m pr0 pm0 sc)
      with during_not_falsy[OF adv nonull parents falsy(1) falsy(4)] show ?thesis by simp
    next
      case (root r m sc)
      from during_root[OF adv parents root(1) root(7)] none show ?thesis by auto
    qed
  qed
  from ret have run3: "forEach sortNode (ObjectKeys (keys ?st2)) ?st2 = Some (Inr st)"
    by (simp add: buildTree_forEach)
  have "I ?st2" by (simp add: I_def advances_refl indexed_def)
  have "I st"
    by (rule forEach_invariant[where I = I, OF run3 \<open>I ?st2\<close>]) (rule step)
  then show ?thesis by (simp add: I_def)
qed

lemma children_untouched:
  assumes none: "\<forall>n \<in> set ns. propertyKey (parentId n) \<noteq> q"
    and ret: "buildTree ns = Some (Inr st)"
  shows "references st q = references (phase1 ns initial) q"
proof -
  let ?st2 = "indexed ns"
  define I where "I = (\<lambda>s. advances ?st2 s \<and> references s q = references (phase1 ns initial) q)"
  have step: "I s'" if i: "I s" and sn: "sortNode j s = Some (Inr s')" for j s s'
  proof -
    from i have adv: "advances ?st2 s" and rq: "references s q = references (phase1 ns initial) q"
      by (auto simp: I_def)
    have adv': "advances ?st2 s'" using adv sortNode_advances[OF sn] by (rule advances_trans)
    from sn show ?thesis
    proof (cases rule: sortNode_InrE)
      case skip
      with i show ?thesis by simp
    next
      case (nested r m pr0 pm0 sc)
      from during_input[OF adv nested(1)] none have "propertyKey (parentId r) \<noteq> q" by auto
      with nested(9) rq adv' show ?thesis by (simp add: I_def)
    next
      case (falsy r m pr0 pm0 sc)
      with rq adv' show ?thesis by (simp add: I_def)
    next
      case (root r m sc)
      with rq adv' show ?thesis by (simp add: I_def)
    qed
  qed
  from ret have run3: "forEach sortNode (ObjectKeys (keys ?st2)) ?st2 = Some (Inr st)"
    by (simp add: buildTree_forEach)
  have "I ?st2" by (simp add: I_def advances_refl indexed_def)
  have "I st"
    by (rule forEach_invariant[where I = I, OF run3 \<open>I ?st2\<close>]) (rule step)
  then show ?thesis by (simp add: I_def)
qed


section \<open>Well-formed input is assembled without a fault\<close>

lemma wellFormedD:
  assumes "wellFormed ns layout"
  shows "siblingChains ns layout"
    and "distinct (map nodeId ns)"
    and "''null'' \<notin> nodeId ` set ns"
    and "\<forall>n \<in> set ns. case parentId n of None \<Rightarrow> True
            | Some q \<Rightarrow> q \<noteq> [] \<and> q \<in> nodeId ` set ns"
    and "\<forall>n \<in> set ns. nodeId n \<in> set (runOf layout (parentId n))"
  using assms
  by (auto simp: wellFormed_def siblingChains_def list_all_iff split: option.splits)

lemma wellFormed_last:
  assumes wf: "siblingChains ns layout" and n: "n \<in> set ns" and un: "nodeId n \<notin> named ns"
  shows "nodeId n = last (runOf layout (parentId n))"
proof -
  from wf n have mem: "nodeId n \<in> set (runOf layout (parentId n))"
    by (simp add: siblingChains_def list_all_iff)
  then have ne: "runOf layout (parentId n) \<noteq> []" by auto
  from last_or_butlast[OF ne mem] run_butlast_named[OF wf] un show ?thesis by blast
qed

lemma sortNode_wellFormed:
  assumes wf: "wellFormed ns layout" and adv: "advances (indexed ns) s"
    and k: "k \<in> nodeId ` set ns"
  shows "\<exists>s'. sortNode k s = Some (Inr s')"
proof -
  note sc = wellFormedD(1)[OF wf] and nonull = wellFormedD(3)[OF wf]
    and parents = wellFormedD(4)[OF wf] and member = wellFormedD(5)[OF wf]
  from during_references_defined[OF adv k] obtain r where r: "references s k = Some r" by blast
  from during_metaData_defined[OF adv k] obtain m where m: "metaData s k = Some m" by blast
  show ?thesis
  proof (cases "isLastNode m")
    case False
    with r m show ?thesis by (simp add: sortNode_def)
  next
    case True
    from during_input[OF adv r] obtain n where n: "n \<in> set ns" "nodeId n = k"
      "parentId n = parentId r" by blast
    from during_metaData[OF adv m] True have un: "k \<notin> named ns" by simp
    let ?c = "runOf layout (parentId r)"
    from member n have mem: "k \<in> set ?c" by auto
    then have ne: "?c \<noteq> []" by auto
    from wellFormed_last[OF sc n(1)] un n have last: "k = last ?c" by simp
    have null: "references s ''null'' = None"
      using during_unresolved[OF adv, of "''null''"] index_defined[of ns "''null''"] nonull
      by simp
    have w: "walk (references s) k [] = Some ?c"
      using walk_run[of "references s" "parentId r" None ?c "[]"] runOf_layout(2)[OF sc ne] ne null
      by (simp add: during_siblingRun[OF adv] last[symmetric] propertyKey_def)
    show ?thesis
    proof (cases "parentId r")
      case None
      with r m True w null show ?thesis
        by (simp add: sortNode_def Let_def place_def truthy_def propertyKey_def)
    next
      case (Some q)
      with parents n(1,3) have q: "q \<noteq> []" "q \<in> nodeId ` set ns" by force+
      from during_references_defined[OF adv q(2)] obtain pr where pr: "references s q = Some pr"
        by blast
      from during_metaData_defined[OF adv q(2)] obtain pm where pm: "metaData s q = Some pm"
        by blast
      from Some r m True w q(1) pr pm show ?thesis
        by (simp add: sortNode_def Let_def place_def truthy_def propertyKey_def)
    qed
  qed
qed

lemma forEach_wellFormed:
  assumes wf: "wellFormed ns layout"
  shows "set ks \<subseteq> nodeId ` set ns \<Longrightarrow> advances (indexed ns) s
    \<Longrightarrow> \<exists>s'. forEach sortNode ks s = Some (Inr s')"
proof (induction ks arbitrary: s)
  case Nil
  then show ?case by simp
next
  case (Cons k ks)
  from Cons.prems(1) have k: "k \<in> nodeId ` set ns" by simp
  from sortNode_wellFormed[OF wf Cons.prems(2) k] obtain s1 where
    s1: "sortNode k s = Some (Inr s1)" by blast
  have "advances (indexed ns) s1"
    using Cons.prems(2) sortNode_advances[OF s1] by (rule advances_trans)
  moreover from Cons.prems(1) have "set ks \<subseteq> nodeId ` set ns" by simp
  ultimately obtain s' where "forEach sortNode ks s1 = Some (Inr s')"
    using Cons.IH by blast
  with s1 show ?case by simp
qed

lemma wellFormed_returns:
  assumes "wellFormed ns layout"
  shows "\<exists>st. buildTree ns = Some (Inr st)"
  unfolding buildTree_forEach
  by (rule forEach_wellFormed[OF assms]) (simp_all add: set_keys_indexed advances_refl)

lemma wellFormed_result:
  assumes wf: "wellFormed ns layout"
  shows "\<exists>st. buildTree ns = Some (Inr st) \<and> tree st = runOf layout None
     \<and> (\<forall>q \<in> nodeId ` set ns.
           map_option children (references st q) = Some (runOf layout (Some q)))"
proof -
  note sc = wellFormedD(1)[OF wf] and nonull = wellFormedD(3)[OF wf]
    and parents = wellFormedD(4)[OF wf] and member = wellFormedD(5)[OF wf]
  from wellFormed_returns[OF wf] obtain st where st: "buildTree ns = Some (Inr st)" by blast
  have null: "references (phase1 ns initial) ''null'' = None"
    using index_defined[of ns "''null''"] nonull by simp
  have tr: "tree st = runOf layout None"
  proof (cases "runOf layout None = []")
    case True
    have "\<forall>n \<in> set ns. parentId n \<noteq> None"
    proof (intro ballI notI)
      fix n assume n: "n \<in> set ns" and p: "parentId n = None"
      from member n have "nodeId n \<in> set (runOf layout (parentId n))" by blast
      with p True show False by simp
    qed
    from tree_untouched[OF nonull parents this st] True show ?thesis by simp
  next
    case False
    show ?thesis
    proof (rule run_tree[OF runOf_layout(2)[OF sc False] False nonull parents _ _ st])
      show "\<forall>n \<in> set ns. parentId n = None \<longrightarrow> nodeId n \<in> set (runOf layout None)"
        using member by force
      show "last (runOf layout None) \<notin> named ns" by (rule run_last_unnamed[OF sc False])
    qed
  qed
  have ch: "map_option children (references st q) = Some (runOf layout (Some q))"
    if q: "q \<in> nodeId ` set ns" for q
  proof (cases "runOf layout (Some q) = []")
    case True
    have "\<forall>n \<in> set ns. propertyKey (parentId n) \<noteq> q"
    proof
      fix n assume n: "n \<in> set ns"
      show "propertyKey (parentId n) \<noteq> q"
      proof (cases "parentId n")
        case None
        with q nonull show ?thesis by (auto simp: propertyKey_def)
      next
        case (Some p)
        with member n True show ?thesis by (force simp: propertyKey_def)
      qed
    qed
    from children_untouched[OF this st]
    have "references st q = references (phase1 ns initial) q" .
    moreover from q obtain r0 where r0: "references (phase1 ns initial) q = Some r0"
      using index_defined[of ns q] by auto
    moreover from index_from_input[OF r0] have "children r0 = []" by (auto simp: newRecord_def)
    ultimately show ?thesis using True by simp
  next
    case False
    then have "last (runOf layout (Some q)) \<in> set (runOf layout (Some q))" by simp
    from run_member[OF sc this] parents have qne: "q \<noteq> []" by force
    show ?thesis
    proof (rule run_children[OF runOf_layout(2)[OF sc False] False _ q qne _ _ st])
      show "references (phase1 ns initial) (propertyKey None) = None"
        using null by (simp add: propertyKey_def)
      show "\<forall>n \<in> set ns. propertyKey (parentId n) = q
              \<longrightarrow> nodeId n \<in> set (runOf layout (Some q))"
      proof (intro ballI impI)
        fix n assume n: "n \<in> set ns" and pk: "propertyKey (parentId n) = q"
        show "nodeId n \<in> set (runOf layout (Some q))"
        proof (cases "parentId n")
          case None
          with pk q nonull show ?thesis by (auto simp: propertyKey_def)
        next
          case (Some p)
          with pk member n show ?thesis by (force simp: propertyKey_def)
        qed
      qed
      show "last (runOf layout (Some q)) \<notin> named ns" by (rule run_last_unnamed[OF sc False])
    qed
  qed
  from st tr ch show ?thesis by blast
qed


section \<open>The serialised tree\<close>


lemma collect_map_Inr:
  "(\<And>x. x \<in> set xs \<Longrightarrow> \<exists>y. f x = Inr y) \<Longrightarrow> \<exists>ys. collect (map f xs) = Inr ys"
proof (induction xs)
  case Nil
  then show ?case by simp
next
  case (Cons x xs)
  from Cons.prems[of x] obtain y where y: "f x = Inr y" by auto
  from Cons.IH Cons.prems obtain ys where "collect (map f xs) = Inr ys" by auto
  with y show ?case by simp
qed

lemma collect_map_InrD:
  "collect (map f xs) = Inr ys \<Longrightarrow> list_all2 (\<lambda>x y. f x = Inr y) xs ys"
proof (induction xs arbitrary: ys)
  case Nil
  then show ?case by simp
next
  case (Cons x xs)
  from Cons.prems obtain y ys' where "f x = Inr y" "collect (map f xs) = Inr ys'" "ys = y # ys'"
    by (auto split: sum.splits)
  with Cons.IH show ?case by simp
qed

lemma list_all2_map_eq:
  "list_all2 (\<lambda>x y. g y = x) xs ys \<Longrightarrow> map g ys = xs"
  by (induction xs ys rule: list_all2_induct) simp_all

lemma self_object: "j \<in> set (objects j)"
  by (cases j) simp

lemma objects_closed: "o' \<in> set (objects j) \<Longrightarrow> c \<in> set (kids o') \<Longrightarrow> c \<in> set (objects j)"
proof (induction j)
  case (Json n cs)
  from Json.prems(1) consider "o' = Json n cs" | y where "y \<in> set cs" "o' \<in> set (objects y)"
    by auto
  then show ?case
  proof cases
    case 1
    with Json.prems(2) have "c \<in> set cs" by simp
    with self_object[of c] show ?thesis by auto
  next
    case 2
    from Json.IH[OF 2(1) 2(2) Json.prems(2)] 2(1) show ?thesis by auto
  qed
qed

lemma stringify_Inr:
  assumes "stringify refs avail k = Inr j"
  obtains r cs where "k \<in> set avail" "refs k = Some r" "j = Json (fields r) cs"
    "list_all2 (\<lambda>x y. stringify refs (removeAll k avail) x = Inr y) (children r) cs"
proof -
  from assms have k: "k \<in> set avail"
    by (subst (asm) stringify.simps) (simp split: if_splits)
  with assms obtain r where r: "refs k = Some r"
    by (subst (asm) stringify.simps) (simp split: option.splits)
  with assms k obtain cs where cs: "collect (map (stringify refs (removeAll k avail)) (children r)) = Inr cs"
    "j = Json (fields r) cs"
    by (subst (asm) stringify.simps) (auto split: sum.splits)
  from collect_map_InrD[OF cs(1)] k r cs(2) show thesis by (rule that[rotated 3])
qed

lemma stringify_shape:
  "(\<forall>x r. refs x = Some r \<longrightarrow> nodeId r = x) \<Longrightarrow> stringify refs avail k = Inr j
     \<Longrightarrow> ident j = k
        \<and> (\<forall>o' \<in> set (objects j). \<exists>r. refs (ident o') = Some r \<and> map ident (kids o') = children r)"
proof (induction refs avail k arbitrary: j rule: stringify.induct)
  case (1 refs avail k)
  note prems = "1.prems" and IH = "1.IH"
  from prems(2) obtain r cs where k: "k \<in> set avail" and r: "refs k = Some r"
    and j: "j = Json (fields r) cs"
    and all: "list_all2 (\<lambda>x y. stringify refs (removeAll k avail) x = Inr y) (children r) cs"
    by (rule stringify_Inr)
  have ih: "ident y = x
        \<and> (\<forall>o' \<in> set (objects y). \<exists>r. refs (ident o') = Some r \<and> map ident (kids o') = children r)"
    if "x \<in> set (children r)" "stringify refs (removeAll k avail) x = Inr y" for x y
    using IH[OF k r that(1) prems(1) that(2)] .
  have idents: "list_all2 (\<lambda>x y. ident y = x) (children r) cs"
    using all ih by (auto simp: list_all2_conv_all_nth)
  have kidsj: "map ident (kids j) = children r"
    using list_all2_map_eq[OF idents] j by simp
  have idj: "ident j = k" using j r prems(1) by (simp add: fields_def)
  have sub: "\<exists>r. refs (ident o') = Some r \<and> map ident (kids o') = children r"
    if y: "y \<in> set cs" and o': "o' \<in> set (objects y)" for y o'
  proof -
    from y obtain i where i: "i < length cs" "y = cs ! i" by (auto simp: in_set_conv_nth)
    from all have len: "length (children r) = length cs"
      and nth: "\<And>i. i < length cs \<Longrightarrow> stringify refs (removeAll k avail) (children r ! i) = Inr (cs ! i)"
      by (auto simp: list_all2_conv_all_nth)
    from i len have "children r ! i \<in> set (children r)" by simp
    moreover from nth[OF i(1)] i(2)
    have "stringify refs (removeAll k avail) (children r ! i) = Inr y" by simp
    ultimately obtain x where "x \<in> set (children r)"
      "stringify refs (removeAll k avail) x = Inr y" by blast
    from ih[OF this] o' show ?thesis by blast
  qed
  have "\<exists>r. refs (ident o') = Some r \<and> map ident (kids o') = children r"
    if "o' \<in> set (objects j)" for o'
  proof -
    from that j consider "o' = j" | y where "y \<in> set cs" "o' \<in> set (objects y)" by auto
    then show ?thesis
    proof cases
      case 1
      with idj r kidsj show ?thesis by simp
    next
      case 2
      then show ?thesis by (rule sub)
    qed
  qed
  with idj show ?case by blast
qed

lemma depthOf_less: "depthOf refs b k = Some d \<Longrightarrow> d < b"
  by (induction b arbitrary: k d) (auto split: option.splits)

lemma depthOf_Suc: "depthOf refs b k = Some d \<Longrightarrow> depthOf refs (Suc b) k = Some d"
proof (induction b arbitrary: k d)
  case 0
  then show ?case by simp
next
  case (Suc b)
  from Suc.prems obtain r where r: "refs k = Some r" by (auto split: option.splits)
  show ?case
  proof (cases "parentId r")
    case None
    with r Suc.prems show ?thesis by simp
  next
    case (Some p)
    with r Suc.prems obtain d' where d': "depthOf refs b p = Some d'" "d = Suc d'" by auto
    from Suc.IH[OF d'(1)] r Some d'(2) show ?thesis by simp
  qed
qed

lemma depthOf_child:
  assumes "refs c = Some rc" "parentId rc = Some k" "depthOf refs b c = Some d"
  shows "\<exists>d'. d = Suc d' \<and> depthOf refs b k = Some d'"
proof (cases b)
  case 0
  with assms(3) show ?thesis by simp
next
  case (Suc b')
  with assms obtain d' where d': "depthOf refs b' k = Some d'" "d = Suc d'" by auto
  from depthOf_Suc[OF d'(1)] d'(2) Suc show ?thesis by simp
qed

lemma depthOf_root:
  assumes "refs c = Some rc" "parentId rc = None" "depthOf refs b c = Some d"
  shows "d = 0"
  using assms by (cases b) auto


lemma stringify_succeeds:
  assumes ch: "\<And>k. k \<in> K \<Longrightarrow> \<exists>r. refs k = Some r
            \<and> (\<forall>c \<in> set (children r). c \<in> K \<and> (\<exists>rc. idx c = Some rc \<and> parentId rc = Some k))"
    and dep: "\<And>k. k \<in> K \<Longrightarrow> \<exists>d. depthOf idx B k = Some d"
  shows "k \<in> K \<Longrightarrow> depthOf idx B k = Some d
    \<Longrightarrow> (\<And>x e. x \<in> K \<Longrightarrow> depthOf idx B x = Some e \<Longrightarrow> d \<le> e \<Longrightarrow> x \<in> set avail)
    \<Longrightarrow> \<exists>j. stringify refs avail k = Inr j"
proof (induction "B - d" arbitrary: k d avail rule: less_induct)
  case less
  from less.prems(3)[OF less.prems(1,2)] have kin: "k \<in> set avail" by simp
  from ch[OF less.prems(1)] obtain r where r: "refs k = Some r"
    and cs: "\<And>c. c \<in> set (children r) \<Longrightarrow> c \<in> K \<and> (\<exists>rc. idx c = Some rc \<and> parentId rc = Some k)"
    by blast
  have "\<exists>y. stringify refs (removeAll k avail) c = Inr y" if c: "c \<in> set (children r)" for c
  proof -
    from cs[OF c] obtain rc where cK: "c \<in> K" and rc: "idx c = Some rc" "parentId rc = Some k"
      by blast
    from dep[OF cK] obtain dc where dc: "depthOf idx B c = Some dc" by blast
    from depthOf_child[OF rc dc] less.prems(2) have dcd: "dc = Suc d" by auto
    from depthOf_less[OF dc] dcd have lt: "B - dc < B - d" by simp
    show ?thesis
    proof (rule less.hyps[OF lt cK dc])
      fix x e
      assume x: "x \<in> K" "depthOf idx B x = Some e" "dc \<le> e"
      with dcd have "d \<le> e" by simp
      from less.prems(3)[OF x(1,2) this] have "x \<in> set avail" .
      moreover have "x \<noteq> k" using x(2,3) dcd less.prems(2) by auto
      ultimately show "x \<in> set (removeAll k avail)" by simp
    qed
  qed
  from collect_map_Inr[of "children r" "stringify refs (removeAll k avail)", OF this]
  obtain ys where "collect (map (stringify refs (removeAll k avail)) (children r)) = Inr ys"
    by blast
  with kin r show ?case by (subst stringify.simps) simp
qed

lemma during_nodeId:
  assumes "advances (indexed ns) s" "references s k = Some r"
  shows "nodeId r = k"
proof -
  from during_index[OF assms] obtain r0 where r0: "references (phase1 ns initial) k = Some r0"
    "fields r = fields r0" by blast
  from index_from_input[OF r0(1)] have "nodeId r0 = k" by (auto simp: newRecord_def)
  moreover from r0(2) have "nodeId r = nodeId r0" by (simp add: fields_def)
  ultimately show ?thesis by simp
qed

lemma wellFormed_written:
  assumes wf: "wellFormed ns layout" and rooted: "rooted ns"
  shows "\<exists>out. written ns = Some (Inr out)
     \<and> map ident out = runOf layout None
     \<and> (\<forall>o' \<in> set (concat (map objects out)).
           ident o' \<in> nodeId ` set ns
           \<and> map ident (kids o') = runOf layout (Some (ident o')))
     \<and> (\<forall>k \<in> nodeId ` set ns. \<exists>o' \<in> set (concat (map objects out)). ident o' = k)"
proof -
  let ?idx = "references (phase1 ns initial)"
  let ?K = "nodeId ` set ns"
  let ?B = "length ns"
  note sc = wellFormedD(1)[OF wf] and dist = wellFormedD(2)[OF wf]
    and parents = wellFormedD(4)[OF wf] and member = wellFormedD(5)[OF wf]
  from wellFormed_result[OF wf] obtain st where st: "buildTree ns = Some (Inr st)"
    and tr: "tree st = runOf layout None"
    and ch: "\<forall>q \<in> ?K. map_option children (references st q) = Some (runOf layout (Some q))"
    by blast
  from st have adv: "advances (indexed ns) st"
    by (simp add: buildTree_forEach forEach_advances)
  then have keys: "set (keys st) = ?K"
    by (simp add: advances_def indexed_def set_keys_phase1 initial_def)
  have key: "\<forall>x r. references st x = Some r \<longrightarrow> nodeId r = x"
    using during_nodeId[OF adv] by blast
  have inK: "x \<in> ?K" if "references st x = Some r" for x r
    using during_input[OF adv that] by force
  have runmem: "c \<in> ?K \<and> (\<exists>rc. ?idx c = Some rc \<and> parentId rc = g)"
    if c: "c \<in> set (runOf layout g)" for c g
  proof -
    from c have ne: "runOf layout g \<noteq> []" by auto
    from siblingRun_member[OF runOf_layout(2)[OF sc ne] c] obtain rc where
      rc: "?idx c = Some rc" "parentId rc = g" by blast
    with index_defined[of ns c] show ?thesis by auto
  qed
  have chK: "\<exists>r. references st k = Some r
            \<and> (\<forall>c \<in> set (children r). c \<in> ?K \<and> (\<exists>rc. ?idx c = Some rc \<and> parentId rc = Some k))"
    if k: "k \<in> ?K" for k
  proof -
    from bspec[OF ch k] obtain r where r: "references st k = Some r"
      "children r = runOf layout (Some k)" by auto
    with runmem[of _ "Some k"] show ?thesis by auto
  qed
  have dep: "\<exists>d. depthOf ?idx ?B k = Some d" if k: "k \<in> ?K" for k
    using rooted k by (auto simp: rooted_def list_all_iff)
  have top: "\<exists>j. stringify (references st) (keys st) t = Inr j" if t: "t \<in> set (tree st)" for t
  proof -
    from t tr runmem[of t None] have tK: "t \<in> ?K" by simp
    from dep[OF tK] obtain d where d: "depthOf ?idx ?B t = Some d" by blast
    show ?thesis
      by (rule stringify_succeeds[where K = ?K and idx = ?idx and B = ?B, OF chK dep tK d])
         (simp_all add: keys)
  qed
  from collect_map_Inr[of "tree st" "stringify (references st) (keys st)", OF top]
  obtain out where out: "collect (map (stringify (references st) (keys st)) (tree st)) = Inr out"
    by blast
  with st have w: "written ns = Some (Inr out)" by (simp add: written_def stringifyTree_def)
  note all = collect_map_InrD[OF out]
  have shape: "ident j = t
        \<and> (\<forall>o' \<in> set (objects j). \<exists>r. references st (ident o') = Some r
               \<and> map ident (kids o') = children r)"
    if "stringify (references st) (keys st) t = Inr j" for t j
    using stringify_shape[OF key that] .
  have "list_all2 (\<lambda>t j. ident j = t) (tree st) out"
    using all shape by (auto simp: list_all2_conv_all_nth)
  from list_all2_map_eq[OF this] tr have tops: "map ident out = runOf layout None" by simp
  have objs: "ident o' \<in> ?K \<and> map ident (kids o') = runOf layout (Some (ident o'))"
    if o': "o' \<in> set (concat (map objects out))" for o'
  proof -
    from o' obtain j where j: "j \<in> set out" "o' \<in> set (objects j)" by auto
    from j(1) obtain i where i: "i < length out" "j = out ! i" by (auto simp: in_set_conv_nth)
    from all i have "stringify (references st) (keys st) (tree st ! i) = Inr j"
      by (auto simp: list_all2_conv_all_nth)
    from shape[OF this] j(2) obtain r where r: "references st (ident o') = Some r"
      "map ident (kids o') = children r" by blast
    from inK[OF r(1)] have "ident o' \<in> ?K" .
    with bspec[OF ch this] r show ?thesis by simp
  qed
  have occ: "\<exists>o' \<in> set (concat (map objects out)). ident o' = k"
    if "k \<in> ?K" "depthOf ?idx ?B k = Some d" for k d
    using that
  proof (induction d arbitrary: k)
    case 0
    from 0(1) obtain r0 where r0: "?idx k = Some r0" using index_defined[of ns k] by auto
    have "parentId r0 = None"
    proof (cases "parentId r0")
      case None
      then show ?thesis .
    next
      case (Some q)
      from index_from_input[OF r0] Some obtain n where "n \<in> set ns" "parentId n = Some q"
        by (auto simp: newRecord_def)
      with parents have "q \<in> ?K" by force
      then obtain rq where rq: "?idx q = Some rq" using index_defined[of ns q] by auto
      from depthOf_child[OF r0 Some 0(2)] show ?thesis by simp
    qed
    with index_from_input[OF r0] obtain n where n: "n \<in> set ns" "nodeId n = k" "parentId n = None"
      by (auto simp: newRecord_def)
    with member have "k \<in> set (runOf layout None)" by force
    with tops have "k \<in> set (map ident out)" by simp
    then obtain j where "j \<in> set out" "ident j = k" by auto
    with self_object[of j] show ?case by auto
  next
    case (Suc d)
    from Suc.prems(1) obtain r0 where r0: "?idx k = Some r0" using index_defined[of ns k] by auto
    from index_from_input[OF r0] obtain n where n: "n \<in> set ns" "nodeId n = k"
      "parentId n = parentId r0" by (auto simp: newRecord_def)
    have "parentId r0 \<noteq> None"
      using depthOf_root[OF r0 _ Suc.prems(2)] by auto
    then obtain q where q: "parentId r0 = Some q" by auto
    from depthOf_child[OF r0 q Suc.prems(2)] have dq: "depthOf ?idx ?B q = Some d" by simp
    from parents n q have qK: "q \<in> ?K" by force
    from Suc.IH[OF qK dq] obtain oq where oq: "oq \<in> set (concat (map objects out))" "ident oq = q"
      by blast
    from member n q have "k \<in> set (runOf layout (Some q))" by force
    with objs[OF oq(1)] oq(2) have "k \<in> set (map ident (kids oq))" by simp
    then obtain c where c: "c \<in> set (kids oq)" "ident c = k" by auto
    from oq(1) obtain j where j: "j \<in> set out" "oq \<in> set (objects j)" by auto
    from objects_closed[OF j(2) c(1)] j(1) c(2) show ?case by auto
  qed
  have "\<forall>k \<in> ?K. \<exists>o' \<in> set (concat (map objects out)). ident o' = k"
  proof
    fix k assume k: "k \<in> ?K"
    from dep[OF k] obtain d where "depthOf ?idx ?B k = Some d" by blast
    from occ[OF k this] show "\<exists>o' \<in> set (concat (map objects out)). ident o' = k" .
  qed
  with w tops objs show ?thesis by blast
qed

text \<open>
  C7, as amended. Let the input be well-formed (unique \<open>nodeId\<close>s, none of them
  \<open>"null"\<close>; every sibling group one chain without repetition that starts at a node with
  \<open>previousSiblingId\<close> \<open>null\<close>; every \<open>parentId\<close> \<open>null\<close> or the non-empty \<open>nodeId\<close> of
  a node), let no identifier be a property name of \<open>Object.prototype\<close>, and let the
  \<open>parentId\<close> references form no cycle. Then the run reaches line 111 without a fault, and
  in the array that is written every node whose \<open>parentId\<close> is \<open>null\<close> is an object of the
  top level, and every node with a non-null \<open>parentId\<close> is not at the top level, is among
  the \<open>children\<close> of an object of that parent, and is among the \<open>children\<close> of no object
  of another node.
\<close>

theorem roots_and_nested:
  assumes plain: "plainIdentifiers unsortedNodes"
    and wf: "wellFormed unsortedNodes layout"
    and rooted: "rooted unsortedNodes"
  shows "\<exists>out. written unsortedNodes = Some (Inr out)
     \<and> (\<forall>n \<in> set unsortedNodes.
           case parentId n of
             None \<Rightarrow> nodeId n \<in> set (map ident out)
           | Some p \<Rightarrow>
               nodeId n \<notin> set (map ident out)
               \<and> (\<exists>j \<in> set (concat (map objects out)).
                     ident j = p \<and> nodeId n \<in> set (map ident (kids j)))
               \<and> (\<forall>j \<in> set (concat (map objects out)).
                     nodeId n \<in> set (map ident (kids j)) \<longrightarrow> ident j = p))"
proof -
  note sc = wellFormedD(1)[OF wf] and dist = wellFormedD(2)[OF wf]
    and parents = wellFormedD(4)[OF wf] and member = wellFormedD(5)[OF wf]
  from wellFormed_written[OF wf rooted] obtain out where
    w: "written unsortedNodes = Some (Inr out)"
    and tops: "map ident out = runOf layout None"
    and objs: "\<forall>o' \<in> set (concat (map objects out)).
           ident o' \<in> nodeId ` set unsortedNodes
           \<and> map ident (kids o') = runOf layout (Some (ident o'))"
    and occ: "\<forall>k \<in> nodeId ` set unsortedNodes.
           \<exists>o' \<in> set (concat (map objects out)). ident o' = k"
    by blast
  have only: "parentId n = g"
    if n: "n \<in> set unsortedNodes" and k: "nodeId n \<in> set (runOf layout g)" for n g
  proof -
    from run_member[OF sc k] obtain m where m: "m \<in> set unsortedNodes" "nodeId m = nodeId n"
      "parentId m = g" by blast
    from dist m(1,2) n have "m = n" by (metis distinct_map inj_onD)
    with m(3) show ?thesis by simp
  qed
  have "case parentId n of
             None \<Rightarrow> nodeId n \<in> set (map ident out)
           | Some p \<Rightarrow>
               nodeId n \<notin> set (map ident out)
               \<and> (\<exists>j \<in> set (concat (map objects out)).
                     ident j = p \<and> nodeId n \<in> set (map ident (kids j)))
               \<and> (\<forall>j \<in> set (concat (map objects out)).
                     nodeId n \<in> set (map ident (kids j)) \<longrightarrow> ident j = p)"
    if n: "n \<in> set unsortedNodes" for n
  proof (cases "parentId n")
    case None
    from member n have "nodeId n \<in> set (runOf layout (parentId n))" by blast
    with None tops show ?thesis by simp
  next
    case (Some p)
    from member n have mem: "nodeId n \<in> set (runOf layout (parentId n))" by blast
    from parents n Some have p: "p \<in> nodeId ` set unsortedNodes" by force
    have 1: "nodeId n \<notin> set (map ident out)"
    proof
      assume "nodeId n \<in> set (map ident out)"
      with tops only[OF n, of None] Some show False by simp
    qed
    from bspec[OF occ p] obtain op where op: "op \<in> set (concat (map objects out))" "ident op = p"
      by blast
    from bspec[OF objs op(1)] op(2) mem Some
    have "nodeId n \<in> set (map ident (kids op))" by simp
    with op have 2: "\<exists>j \<in> set (concat (map objects out)).
                     ident j = p \<and> nodeId n \<in> set (map ident (kids j))" by blast
    have 3: "ident j = p"
      if j: "j \<in> set (concat (map objects out))" and a: "nodeId n \<in> set (map ident (kids j))" for j
    proof -
      from bspec[OF objs j] a have "nodeId n \<in> set (runOf layout (Some (ident j)))" by simp
      from only[OF n this] Some show ?thesis by simp
    qed
    from 1 2 3 Some show ?thesis by simp
  qed
  with w show ?thesis by blast
qed

theorem roots_and_nested_witness:
  "plainIdentifiers
     [item ''P'' None None, item ''Q'' None (Some ''P''), item ''A'' (Some ''P'') None,
      item ''B'' (Some ''P'') (Some ''A''), item ''C'' (Some ''A'') None]
   \<and> wellFormed
     [item ''P'' None None, item ''Q'' None (Some ''P''), item ''A'' (Some ''P'') None,
      item ''B'' (Some ''P'') (Some ''A''), item ''C'' (Some ''A'') None]
     [(None, [''P'', ''Q'']), (Some ''P'', [''A'', ''B'']), (Some ''A'', [''C''])]
   \<and> rooted
     [item ''P'' None None, item ''Q'' None (Some ''P''), item ''A'' (Some ''P'') None,
      item ''B'' (Some ''P'') (Some ''A''), item ''C'' (Some ''A'') None]
   \<and> (\<exists>out. written
          [item ''P'' None None, item ''Q'' None (Some ''P''), item ''A'' (Some ''P'') None,
           item ''B'' (Some ''P'') (Some ''A''), item ''C'' (Some ''A'') None] = Some (Inr out)
        \<and> ''Q'' \<in> set (map ident out)
        \<and> ''C'' \<notin> set (map ident out)
        \<and> (\<exists>j \<in> set (concat (map objects out)).
              ident j = ''A'' \<and> ''C'' \<in> set (map ident (kids j))))"
proof -
  let ?ns = "[item ''P'' None None, item ''Q'' None (Some ''P''), item ''A'' (Some ''P'') None,
      item ''B'' (Some ''P'') (Some ''A''), item ''C'' (Some ''A'') None]"
  let ?layout = "[(None, [''P'', ''Q'']), (Some ''P'', [''A'', ''B'']), (Some ''A'', [''C''])]"
  have p: "plainIdentifiers ?ns"
    by (simp add: plainIdentifiers_def prototypeNames_def item_def propertyKey_def)
  have h: "wellFormed ?ns ?layout"
    by (simp add: wellFormed_def siblingChains_def runOf_def run_defs)
  have r: "rooted ?ns"
    by (simp add: rooted_def run_defs)
  from roots_and_nested[OF p h r] obtain out where
    out: "written ?ns = Some (Inr out)
     \<and> (\<forall>n \<in> set ?ns.
           case parentId n of
             None \<Rightarrow> nodeId n \<in> set (map ident out)
           | Some p \<Rightarrow>
               nodeId n \<notin> set (map ident out)
               \<and> (\<exists>j \<in> set (concat (map objects out)).
                     ident j = p \<and> nodeId n \<in> set (map ident (kids j)))
               \<and> (\<forall>j \<in> set (concat (map objects out)).
                     nodeId n \<in> set (map ident (kids j)) \<longrightarrow> ident j = p))" ..
  have q: "item ''Q'' None (Some ''P'') \<in> set ?ns" by simp
  have c: "item ''C'' (Some ''A'') None \<in> set ?ns" by simp
  from bspec[OF conjunct2[OF out] q] have 1: "''Q'' \<in> set (map ident out)"
    by (simp add: item_def)
  from bspec[OF conjunct2[OF out] c]
  have 2: "''C'' \<notin> set (map ident out)
      \<and> (\<exists>j \<in> set (concat (map objects out)).
              ident j = ''A'' \<and> ''C'' \<in> set (map ident (kids j)))"
    by (simp add: item_def)
  show ?thesis
    by (intro conjI exI[of _ out]) (rule p, rule h, rule r, rule conjunct1[OF out], rule 1,
        rule conjunct1[OF 2], rule conjunct2[OF 2])
qed

text \<open>
  C7 as stated fails on other inputs. Of two parentless nodes that both have
  \<open>previousSiblingId\<close> \<open>null\<close>, only the one visited first is written; \<open>X\<close>, whose
  \<open>parentId\<close> is \<open>R\<close>, is written at the top level and not among the \<open>children\<close> of
  \<open>R\<close> when the chain of the parentless \<open>T\<close> runs through it; and two nodes that are
  each other's parent are not written at all.
\<close>

theorem roots_and_nested_counterexample:
  "written [item ''A'' None None, item ''B'' None None]
     = Some (Inr [Json (item ''A'' None None) []])
   \<and> parentId (item ''B'' None None) = None
   \<and> written [item ''R'' None None, item ''X'' (Some ''R'') (Some ''R''),
               item ''T'' None (Some ''X'')]
     = Some (Inr [Json (item ''R'' None None) [],
                  Json (item ''X'' (Some ''R'') (Some ''R'')) [],
                  Json (item ''T'' None (Some ''X'')) []])
   \<and> written [item ''X'' (Some ''Y'') None, item ''Y'' (Some ''X'') None] = Some (Inr [])"
  by (simp add: written_def stringifyTree_def run_defs walk.simps stringify.simps fields_def)

section \<open>The order of a sibling run\<close>







section \<open>Duplicate identifiers\<close>

text \<open>
  C8. After phase 1 each key of \<open>references\<close> and of \<open>metaData\<close> holds the entry made
  from the last record of the input with that \<open>nodeId\<close>: an earlier record with the same
  \<open>nodeId\<close> is overwritten in both mappings, phase 1 reports nothing, and in the store that
  \<open>buildTree\<close> returns the node under that key still has the fields of the last record, so
  the earlier record is nowhere in the tree.
\<close>

theorem duplicate_nodeId_keeps_later:
  "references (phase1 unsortedNodes initial) k
     = map_option newRecord (find (\<lambda>n. nodeId n = k) (rev unsortedNodes))
   \<and> metaData (phase1 unsortedNodes initial) k
     = map_option (\<lambda>n. newMeta) (find (\<lambda>n. nodeId n = k) (rev unsortedNodes))
   \<and> (\<forall>st r. buildTree unsortedNodes = Some (Inr st) \<longrightarrow> references st k = Some r
         \<longrightarrow> find (\<lambda>n. nodeId n = k) (rev unsortedNodes) = Some (fields r))"
proof -
  have idx: "references (phase1 unsortedNodes initial) k
     = map_option newRecord (find (\<lambda>n. nodeId n = k) (rev unsortedNodes))"
    by (simp add: references_phase1 initial_def split: option.splits)
  have meta: "metaData (phase1 unsortedNodes initial) k
     = map_option (\<lambda>n. newMeta) (find (\<lambda>n. nodeId n = k) (rev unsortedNodes))"
    by (simp add: metaData_phase1 initial_def split: option.splits)
  have "find (\<lambda>n. nodeId n = k) (rev unsortedNodes) = Some (fields r)"
    if ret: "buildTree unsortedNodes = Some (Inr st)" and r: "references st k = Some r" for st r
  proof -
    from ret have "advances (indexed unsortedNodes) st"
      by (simp add: buildTree_forEach forEach_advances)
    from during_index[OF this r] obtain r0 where
      r0: "references (phase1 unsortedNodes initial) k = Some r0" "fields r = fields r0" by blast
    from r0(1) idx obtain n where "find (\<lambda>n. nodeId n = k) (rev unsortedNodes) = Some n"
      "r0 = newRecord n" by auto
    with r0(2) show ?thesis by (simp add: fields_newRecord)
  qed
  with idx meta show ?thesis by blast
qed

theorem duplicate_nodeId_keeps_later_witness:
  "\<exists>st r. buildTree [\<lparr>nodeId = ''1'', name = ''old'', parentId = None, previousSiblingId = None\<rparr>,
                      \<lparr>nodeId = ''1'', name = ''new'', parentId = None, previousSiblingId = None\<rparr>]
             = Some (Inr st)
     \<and> tree st = [''1''] \<and> references st ''1'' = Some r
     \<and> fields r = \<lparr>nodeId = ''1'', name = ''new'', parentId = None, previousSiblingId = None\<rparr>"
proof -
  let ?ns = "[\<lparr>nodeId = ''1'', name = ''old'', parentId = None, previousSiblingId = None\<rparr>,
              \<lparr>nodeId = ''1'', name = ''new'', parentId = None, previousSiblingId = None\<rparr>]"
  have "\<exists>st r. buildTree ?ns = Some (Inr st) \<and> tree st = [''1''] \<and> references st ''1'' = Some r"
    by (simp add: run_defs walk.simps)
  then obtain st r where st: "buildTree ?ns = Some (Inr st)" and tr: "tree st = [''1'']"
    and r: "references st ''1'' = Some r" by blast
  from duplicate_nodeId_keeps_later[of ?ns "''1''"] st r
  have "find (\<lambda>n. nodeId n = ''1'') (rev ?ns) = Some (fields r)" by blast
  then have f: "fields r
      = \<lparr>nodeId = ''1'', name = ''new'', parentId = None, previousSiblingId = None\<rparr>"
    by simp
  show ?thesis
    by (intro exI[of _ st] exI[of _ r] conjI) (rule st, rule tr, rule r, rule f)
qed

end
